theory Spec2Isabelle
  imports Main "HOL-Library.Sublist"
begin

section \<open>Strings of the content script\<close>

text \<open>
  A JavaScript string is a sequence of UTF-16 code units. A code unit is modelled as a
  natural number (below 65536 in every real string), so \<open>length\<close> is \<open>String.length\<close>
  and \<open>take\<close> is \<open>substring(0, n)\<close>. Literals of the source that are pure ASCII are
  written with \<open>ascii\<close>; the others are spelled out as code units.
\<close>

type_synonym js_string = "nat list"

definition ascii :: "string \<Rightarrow> js_string" where
  "ascii s = map of_char s"

text \<open>
  \<open>String.prototype.trim\<close> removes WhiteSpace and LineTerminator code units from both
  ends: TAB, LF, VT, FF, CR, SP, NBSP, U+1680, U+2000..U+200A, U+2028, U+2029, U+202F,
  U+205F, U+3000 and U+FEFF.
\<close>

definition isWhiteSpace :: "nat \<Rightarrow> bool" where
  "isWhiteSpace c =
     (c = 9 \<or> c = 10 \<or> c = 11 \<or> c = 12 \<or> c = 13 \<or> c = 32 \<or> c = 160 \<or> c = 5760
      \<or> (8192 \<le> c \<and> c \<le> 8202) \<or> c = 8232 \<or> c = 8233 \<or> c = 8239 \<or> c = 8287
      \<or> c = 12288 \<or> c = 65279)"

definition trimStart :: "js_string \<Rightarrow> js_string" where
  "trimStart s = dropWhile isWhiteSpace s"

definition trimEnd :: "js_string \<Rightarrow> js_string" where
  "trimEnd s = rev (dropWhile isWhiteSpace (rev s))"

definition trim :: "js_string \<Rightarrow> js_string" where
  "trim s = trimEnd (trimStart s)"

text \<open>Number-to-string conversion of a non-negative integer (a length or a count).\<close>

fun decimal :: "nat \<Rightarrow> js_string" where
  "decimal n = (if n < 10 then [48 + n] else decimal (n div 10) @ [48 + n mod 10])"

declare decimal.simps [simp del]

section \<open>Messages, fingerprints and deduplication\<close>

datatype role = User | Assistant

text \<open>
  A message object \<open>{ role, content, timestamp }\<close>. A timestamp that is \<open>null\<close>,
  \<open>undefined\<close> or left out of the object literal is \<open>None\<close>.
\<close>

record message =
  role :: role
  content :: js_string
  timestamp :: "js_string option"

text \<open>
  \<open>hashContent\<close> (both variants are the same text): \<open>!content\<close> holds of the empty
  string; otherwise the first 100 code units, trimmed, then \<open>'|'\<close>, then the length.
\<close>

definition hashContent :: "js_string \<Rightarrow> js_string" where
  "hashContent c =
     (if c = [] then []
      else trim (take 100 c) @ ascii ''|'' @ decimal (length c))"

text \<open>
  \<open>deduplicateMessages\<close> (both variants are the same text): the \<open>for ... of\<close> loop
  over the messages, threading the set \<open>seen\<close> and the array \<open>result\<close>.
\<close>

fun dedupe_loop :: "js_string set \<Rightarrow> message list \<Rightarrow> message list \<Rightarrow> message list" where
  "dedupe_loop seen result [] = result"
| "dedupe_loop seen result (msg # rest) =
     (let hash = hashContent (content msg) in
      if hash \<notin> seen then dedupe_loop (insert hash seen) (result @ [msg]) rest
      else dedupe_loop seen result rest)"

declare dedupe_loop.simps(2) [simp del]

definition deduplicateMessages :: "message list \<Rightarrow> message list" where
  "deduplicateMessages messages = dedupe_loop {} [] messages"

text \<open>The fingerprint of a message is the hash of its content.\<close>

abbreviation fingerprintOf :: "message \<Rightarrow> js_string" where
  "fingerprintOf m \<equiv> hashContent (content m)"

text \<open>
  The fingerprint as the design document words it, for comparison with \<open>hashContent\<close>:
  the trimmed first 100 characters, a separator, the full length.
\<close>

definition spec_fingerprint :: "js_string \<Rightarrow> js_string" where
  "spec_fingerprint c = trim (take 100 c) @ [124] @ decimal (length c)"

text \<open>
  The deduplicated sequence as the design document words it: message \<open>i\<close> is kept
  exactly when no earlier message has its fingerprint.
\<close>

definition firstOccurrences :: "message list \<Rightarrow> message list" where
  "firstOccurrences msgs =
     map (\<lambda>i. msgs ! i)
       (filter (\<lambda>i. fingerprintOf (msgs ! i) \<notin> set (map fingerprintOf (take i msgs)))
          [0..<length msgs])"

section \<open>Timestamps\<close>

text \<open>
  \<open>parseInt(value, 10)\<close>: leading white space is skipped, one sign is read, then the
  longest run of decimal digits; no digit gives \<open>NaN\<close>, here \<open>None\<close>. The result is
  kept as an exact integer: the source compares it with \<open>9999999999\<close> and \<open>new Date\<close>
  rejects every time value beyond \<open>8.64e15\<close> in magnitude, both below \<open>2^53\<close>, where
  doubles are exact.
\<close>

definition isDigit :: "nat \<Rightarrow> bool" where
  "isDigit c = (48 \<le> c \<and> c \<le> 57)"

definition digitsValue :: "js_string \<Rightarrow> int" where
  "digitsValue ds = foldl (\<lambda>acc c. 10 * acc + (int c - 48)) 0 ds"

definition parseInt10 :: "js_string \<Rightarrow> int option" where
  "parseInt10 value =
     (let s = trimStart value;
          sign = (if s \<noteq> [] \<and> hd s = 45 then - 1 else (1::int));
          s = (if s \<noteq> [] \<and> (hd s = 43 \<or> hd s = 45) then tl s else s);
          z = takeWhile isDigit s
      in if z = [] then None else Some (sign * digitsValue z))"

text \<open>\<open>!isNaN(date.getTime())\<close> for \<open>new Date(t)\<close> with a finite number \<open>t\<close>.\<close>

definition validTime :: "int \<Rightarrow> bool" where
  "validTime t = (\<bar>t\<bar> \<le> 8640000000000000)"

text \<open>
  \<open>formatTimestamp\<close>. The host's \<open>Date.parse\<close> (the time value of \<open>new Date(value)\<close>
  for a string, \<open>None\<close> for an invalid date) and \<open>Date.prototype.toLocaleString\<close> are
  parameters.
\<close>

definition formatTimestamp ::
    "(js_string \<Rightarrow> int option) \<Rightarrow> (int \<Rightarrow> js_string) \<Rightarrow> js_string \<Rightarrow> js_string" where
  "formatTimestamp parseDate toLocaleString value =
     (let unix =
        (case parseInt10 value of
           None \<Rightarrow> None
         | Some num \<Rightarrow>
             (let t = (if num > 9999999999 then num else num * 1000)
              in if validTime t then Some t else None))
      in case unix of
           Some t \<Rightarrow> toLocaleString t
         | None \<Rightarrow>
             (case parseDate value of
                Some t \<Rightarrow> toLocaleString t
              | None \<Rightarrow> value))"

section \<open>Located elements and role classification\<close>

datatype tag = USER_QUERY | MODEL_RESPONSE | OTHER_TAG

text \<open>
  The \<open>className\<close> of an element is a string on an HTML element and an
  \<open>SVGAnimatedString\<close> object on an SVG element.
\<close>

datatype class_name = ClassString js_string | SVGAnimatedString

text \<open>
  What the content script reads of a located element: its tag name, its \<open>className\<close>,
  its \<open>data-message-author-role\<close> attribute (\<open>None\<close> when \<open>getAttribute\<close> gives
  \<open>null\<close>), the result of \<open>extractTimestamp\<close> on it, and \<open>markdown\<close>: the text that
  \<open>htmlToMarkdown\<close> holds for the node whose content is extracted, after the clean-up
  of the clone and the chain of replacements, just before its last statement
  \<open>html = html.trim()\<close>.
\<close>

record element =
  tagName :: tag
  className :: class_name
  roleAttribute :: "js_string option"
  elTimestamp :: "js_string option"
  markdown :: js_string

text \<open>\<open>extractMessageContent\<close> returns what \<open>htmlToMarkdown\<close> returns: the trimmed text.\<close>

definition extractMessageContent :: "element \<Rightarrow> js_string" where
  "extractMessageContent el = trim (markdown el)"

text \<open>
  \<open>toLowerCase\<close> on the ASCII letters. The only other characters that Unicode lowers to
  an ASCII letter are U+0130 and U+212A (to \<open>i\<close> and \<open>k\<close>), and neither letter occurs in
  the words searched for below.
\<close>

definition toLowerCase :: "js_string \<Rightarrow> js_string" where
  "toLowerCase s = map (\<lambda>c. if 65 \<le> c \<and> c \<le> 90 then c + 32 else c) s"

fun js_includes :: "js_string \<Rightarrow> js_string \<Rightarrow> bool" where
  "js_includes [] needle = (needle = [])"
| "js_includes (c # cs) needle = (prefix needle (c # cs) \<or> js_includes cs needle)"

text \<open>An error thrown by the script: the only one its own code raises is a \<open>TypeError\<close>.\<close>

datatype js_error = TypeError

text \<open>
  \<open>determineMessageRole\<close>. Its first statement is
  \<open>(el.className || '').toLowerCase()\<close>: an \<open>SVGAnimatedString\<close> is an object, hence
  truthy, and has no method \<open>toLowerCase\<close>, so the call throws a \<open>TypeError\<close> before the
  attribute is read.
\<close>

definition determineMessageRole :: "element \<Rightarrow> js_error + role" where
  "determineMessageRole el =
     (case className el of
        SVGAnimatedString \<Rightarrow> Inl TypeError
      | ClassString s \<Rightarrow>
          (let classNames = toLowerCase s;
               dataRole = roleAttribute el
           in if dataRole = Some (ascii ''user'')
                 \<or> js_includes classNames (ascii ''user'')
                 \<or> js_includes classNames (ascii ''query'')
                 \<or> js_includes classNames (ascii ''human'')
                 \<or> js_includes classNames (ascii ''prompt'')
              then Inr User else Inr Assistant))"

section \<open>The Markdown renderer\<close>

text \<open>
  \<open>if (msg.timestamp)\<close>: a timestamp that is absent or the empty string is falsy.
\<close>

definition truthy :: "js_string option \<Rightarrow> bool" where
  "truthy t = (case t of None \<Rightarrow> False | Some s \<Rightarrow> s \<noteq> [])"

text \<open>
  The pieces of text of \<open>formatAsMarkdown\<close>. Variant 1 writes the emoji U+1F464 and
  U+1F916 (two code units each) and the dash U+2014; in variant 2 the emoji stand in the
  source as four characters each (U+00F0 U+0178 U+2018 U+00A4 and U+00F0 U+0178 U+00A4
  U+2013), and are emitted so.
\<close>

definition separator :: js_string where
  "separator = ascii (''---'' @ [CHR 0x0A, CHR 0x0A])"

definition newlines :: js_string where
  "newlines = [10, 10]"

definition userIcon_v1 :: js_string where
  "userIcon_v1 = [55357, 56420]"

definition geminiIcon_v1 :: js_string where
  "geminiIcon_v1 = [55358, 56598]"

definition userIcon_v2 :: js_string where
  "userIcon_v2 = [240, 376, 8216, 164]"

definition geminiIcon_v2 :: js_string where
  "geminiIcon_v2 = [240, 376, 164, 8211]"

definition roleHeader :: "js_string \<Rightarrow> js_string \<Rightarrow> role \<Rightarrow> js_string" where
  "roleHeader userIcon geminiIcon r =
     (if r = User then ascii ''## '' @ userIcon @ ascii '' User''
      else ascii ''## '' @ geminiIcon @ ascii '' Gemini'')"

text \<open>
  The head of the document: title line, provenance line, summary line and a first rule.
  \<open>date\<close> and \<open>timezone\<close> are the two strings the host's clock and locale give for
  \<open>now\<close>.
\<close>

definition documentHead ::
    "js_string \<Rightarrow> js_string \<Rightarrow> js_string \<Rightarrow> js_string \<Rightarrow> message list \<Rightarrow> js_string \<Rightarrow> js_string" where
  "documentHead userIcon geminiIcon date timezone msgs title =
     (let userCount = length (filter (\<lambda>m. role m = User) msgs);
          geminiCount = length (filter (\<lambda>m. role m = Assistant) msgs);
          totalCount = length msgs;
          md = ascii ''# '' @ title @ newlines;
          md = md @ ascii ''*Exported from Gemini on '' @ date @ ascii '' '' @ timezone
                 @ ascii ''*'' @ newlines;
          md = md @ ascii ''**Messages:** '' @ decimal totalCount @ ascii '' total (''
                 @ userIcon @ ascii '' User: '' @ decimal userCount @ ascii '', ''
                 @ geminiIcon @ ascii '' Gemini: '' @ decimal geminiCount @ ascii '')''
                 @ newlines;
          md = md @ separator
      in md)"

text \<open>
  The \<open>forEach\<close> over the messages with its index, appending to \<open>markdown\<close>; \<open>n\<close> is
  \<open>messages.length\<close>.
\<close>

fun forEach_v1 :: "nat \<Rightarrow> nat \<Rightarrow> message list \<Rightarrow> js_string \<Rightarrow> js_string" where
  "forEach_v1 n index [] md = md"
| "forEach_v1 n index (msg # rest) md =
     (let md = md @ roleHeader userIcon_v1 geminiIcon_v1 (role msg);
          md = (if truthy (timestamp msg)
                then md @ [32, 8212, 32, 42] @ the (timestamp msg) @ [42]
                else md);
          md = md @ newlines;
          md = md @ content msg @ newlines;
          md = (if int index < int n - 1 then md @ separator else md)
      in forEach_v1 n (Suc index) rest md)"

definition formatAsMarkdown_v1 ::
    "js_string \<Rightarrow> js_string \<Rightarrow> message list \<Rightarrow> js_string \<Rightarrow> js_string" where
  "formatAsMarkdown_v1 date timezone msgs title =
     forEach_v1 (length msgs) 0 msgs
       (documentHead userIcon_v1 geminiIcon_v1 date timezone msgs title)"

fun forEach_v2 :: "nat \<Rightarrow> nat \<Rightarrow> message list \<Rightarrow> js_string \<Rightarrow> js_string" where
  "forEach_v2 n index [] md = md"
| "forEach_v2 n index (msg # rest) md =
     (let md = md @ roleHeader userIcon_v2 geminiIcon_v2 (role msg) @ newlines;
          md = md @ content msg @ newlines;
          md = (if int index < int n - 1 then md @ separator else md)
      in forEach_v2 n (Suc index) rest md)"

definition formatAsMarkdown_v2 ::
    "js_string \<Rightarrow> js_string \<Rightarrow> message list \<Rightarrow> js_string \<Rightarrow> js_string" where
  "formatAsMarkdown_v2 date timezone msgs title =
     forEach_v2 (length msgs) 0 msgs
       (documentHead userIcon_v2 geminiIcon_v2 date timezone msgs title)"

text \<open>
  The layout as the design document words it: one block per message, a role header
  suffixed with the timestamp when the message has one (an empty string counts as none),
  a blank line, the content, and a rule between consecutive blocks, none after the last.
\<close>

definition messageBlock :: "js_string \<Rightarrow> js_string \<Rightarrow> message \<Rightarrow> js_string" where
  "messageBlock userIcon geminiIcon m =
     roleHeader userIcon geminiIcon (role m)
     @ (if truthy (timestamp m) then [32, 8212, 32, 42] @ the (timestamp m) @ [42] else [])
     @ newlines @ content m @ newlines"

fun joinBlocks :: "js_string list \<Rightarrow> js_string" where
  "joinBlocks [] = []"
| "joinBlocks [b] = b"
| "joinBlocks (b # bs) = b @ separator @ joinBlocks bs"

section \<open>Extraction passes over the loaded document\<close>

text \<open>
  The Accumulator: the \<open>messages\<close> array and the \<open>seenContent\<close> set that one extraction
  request creates and every pass mutates.
\<close>

record accumulator =
  messages :: "message list"
  seenContent :: "js_string set"

definition emptyAccumulator :: accumulator where
  "emptyAccumulator = \<lparr>messages = [], seenContent = {}\<rparr>"

text \<open>\<open>a || b\<close> on two optional strings.\<close>

definition js_or :: "js_string option \<Rightarrow> js_string option \<Rightarrow> js_string option" where
  "js_or a b = (if truthy a then a else b)"

text \<open>
  A turn container of variant 1: the result of \<open>extractTimestamp(turn)\<close> and the two
  \<open>querySelector\<close> results (\<open>None\<close> for \<open>null\<close>).
\<close>

record turn =
  turnTimestamp :: "js_string option"
  userEl :: "element option"
  modelEl :: "element option"

definition extractFromTurn :: "turn \<Rightarrow> accumulator \<Rightarrow> accumulator" where
  "extractFromTurn t acc =
     (let acc =
        (case userEl t of
           None \<Rightarrow> acc
         | Some el \<Rightarrow>
             (let contentStr = extractMessageContent el;
                  hash = hashContent contentStr
              in if contentStr \<noteq> [] \<and> hash \<notin> seenContent acc
                 then \<lparr>messages = messages acc @
                         [\<lparr>role = User, content = trim contentStr,
                           timestamp = js_or (elTimestamp el) (turnTimestamp t)\<rparr>],
                       seenContent = insert hash (seenContent acc)\<rparr>
                 else acc))
      in case modelEl t of
           None \<Rightarrow> acc
         | Some el \<Rightarrow>
             (let contentStr = extractMessageContent el;
                  hash = hashContent contentStr
              in if contentStr \<noteq> [] \<and> hash \<notin> seenContent acc
                 then \<lparr>messages = messages acc @
                         [\<lparr>role = Assistant, content = trim contentStr,
                           timestamp = js_or (elTimestamp el) (turnTimestamp t)\<rparr>],
                       seenContent = insert hash (seenContent acc)\<rparr>
                 else acc))"

text \<open>
  \<open>extractFromMainContent\<close>, from its second \<open>forEach\<close> on: the argument is
  \<open>potentialMessages\<close>, the candidates that are not nested in another candidate. The
  callback first calls \<open>determineMessageRole\<close>; when that throws, nothing of this
  candidate has been pushed, the \<open>forEach\<close> is abandoned and the error goes up to the
  handler, while what earlier candidates pushed stays in the arrays. A pass of variant 1
  therefore returns the accumulator as it leaves it, and the error if it threw.
\<close>

definition processCandidate :: "element \<Rightarrow> accumulator \<Rightarrow> js_error + accumulator" where
  "processCandidate el acc =
     (case determineMessageRole el of
        Inl e \<Rightarrow> Inl e
      | Inr r \<Rightarrow>
          (let contentStr = extractMessageContent el;
               hash = hashContent contentStr
           in if contentStr \<noteq> [] \<and> trim contentStr \<noteq> [] \<and> hash \<notin> seenContent acc
              then Inr \<lparr>messages = messages acc @
                        [\<lparr>role = r, content = trim contentStr, timestamp = None\<rparr>],
                      seenContent = insert hash (seenContent acc)\<rparr>
              else Inr acc))"

fun extractFromMainContent ::
    "element list \<Rightarrow> accumulator \<Rightarrow> accumulator \<times> js_error option" where
  "extractFromMainContent [] acc = (acc, None)"
| "extractFromMainContent (el # rest) acc =
     (case processCandidate el acc of
        Inl e \<Rightarrow> (acc, Some e)
      | Inr acc' \<Rightarrow> extractFromMainContent rest acc')"

text \<open>
  The document as variant 1 queries it: the turn containers, and the candidates of the
  main content area (\<open>None\<close> when there is no \<open>main\<close> element).
\<close>

record document_v1 =
  turnContainers :: "turn list"
  mainContent :: "element list option"

definition extractVisibleMessages_v1 ::
    "document_v1 \<Rightarrow> accumulator \<Rightarrow> accumulator \<times> js_error option" where
  "extractVisibleMessages_v1 doc acc =
     (if length (turnContainers doc) > 0
      then (foldl (\<lambda>a t. extractFromTurn t a) acc (turnContainers doc), None)
      else (case mainContent doc of
              None \<Rightarrow> (acc, None)
            | Some potentialMessages \<Rightarrow> extractFromMainContent potentialMessages acc))"

text \<open>
  Variant 2 queries \<open>user-query, model-response\<close> elements; for a model response
  \<open>markdown\<close> is that of \<open>modelTextEl || el\<close>. The loop threads \<open>newMessages\<close> and the
  set; the new messages are then added in front (\<open>unshift\<close>) or at the end (\<open>push\<close>).
\<close>

definition visitElement ::
    "element \<Rightarrow> message list \<times> js_string set \<Rightarrow> message list \<times> js_string set" where
  "visitElement el st =
     (let newMessages = fst st; seen = snd st
      in if tagName el = USER_QUERY then
           (let contentStr = extractMessageContent el;
                hash = hashContent contentStr
            in if contentStr \<noteq> [] \<and> trim contentStr \<noteq> [] \<and> hash \<notin> seen
               then (newMessages @ [\<lparr>role = User, content = trim contentStr, timestamp = None\<rparr>],
                     insert hash seen)
               else st)
         else if tagName el = MODEL_RESPONSE then
           (let contentStr = extractMessageContent el;
                hash = hashContent contentStr
            in if contentStr \<noteq> [] \<and> trim contentStr \<noteq> [] \<and> hash \<notin> seen
               then (newMessages @ [\<lparr>role = Assistant, content = trim contentStr, timestamp = None\<rparr>],
                     insert hash seen)
               else st)
         else st)"

definition extractVisibleMessages_v2 ::
    "bool \<Rightarrow> element list \<Rightarrow> accumulator \<Rightarrow> accumulator" where
  "extractVisibleMessages_v2 prepend messageElements acc =
     (let st = foldl (\<lambda>st el. visitElement el st) ([], seenContent acc) messageElements;
          newMessages = fst st
      in if prepend \<and> length newMessages > 0
         then \<lparr>messages = newMessages @ messages acc, seenContent = snd st\<rparr>
         else \<lparr>messages = messages acc @ newMessages, seenContent = snd st\<rparr>)"

text \<open>The invariant of the Accumulator.\<close>

definition fingerprintsDistinct :: "accumulator \<Rightarrow> bool" where
  "fingerprintsDistinct acc = distinct (map fingerprintOf (messages acc))"

section \<open>The scroll driver\<close>

text \<open>
  The live view is the host's: the driver reaches it only through the closures
  \<open>getScrollTop\<close>, \<open>getScrollHeight\<close>, \<open>getClientHeight\<close>, \<open>scrollBy\<close> and
  \<open>setScrollTop\<close> (over the container that \<open>findScrollContainer\<close> chose, or the
  window), through \<open>await sleep(ms)\<close>, during which the page runs, and through the
  queries of an extraction pass. A view is a state \<open>'v\<close> of the page and these
  operations on it; \<open>'d\<close> is what a pass reads of the document. Every behaviour of a
  page, also one that depends on how often it was scrolled or how long it has waited, is
  some state type with some operations. Scroll metrics are whole CSS pixels.
\<close>

record ('v, 'd) view =
  getScrollTop :: "'v \<Rightarrow> int"
  getScrollHeight :: "'v \<Rightarrow> int"
  getClientHeight :: "'v \<Rightarrow> int"
  scrollBy :: "int \<Rightarrow> 'v \<Rightarrow> 'v"
  setScrollTop :: "int \<Rightarrow> 'v \<Rightarrow> 'v"
  sleep :: "nat \<Rightarrow> 'v \<Rightarrow> 'v"
  queryDocument :: "'v \<Rightarrow> 'd"

definition maxScrolls :: nat where
  "maxScrolls = 500"

text \<open>
  The adaptive wait inside one advance: \<open>while (adaptiveLoops < cap)\<close>, with \<open>cap\<close> 3
  and a wait of 50 ms in variant 1, 5 and 75 ms in variant 2. It returns
  \<open>currentScrollHeight\<close>, the page and the accumulator.
\<close>

function adaptiveWait ::
    "('v, 'd) view \<Rightarrow> ('d \<Rightarrow> accumulator \<Rightarrow> accumulator) \<Rightarrow> nat \<Rightarrow> nat
      \<Rightarrow> nat \<Rightarrow> int \<Rightarrow> 'v \<Rightarrow> accumulator \<Rightarrow> int \<times> 'v \<times> accumulator" where
  "adaptiveWait ops extract ms cap adaptiveLoops currentScrollHeight v acc =
     (if adaptiveLoops < cap then
        (let v = sleep ops ms v;
             acc = extract (queryDocument ops v) acc;
             newScrollHeight = getScrollHeight ops v;
             newMessageCount = length (messages acc)
         in if newScrollHeight = currentScrollHeight \<and> newMessageCount = length (messages acc)
            then (currentScrollHeight, v, acc)
            else adaptiveWait ops extract ms cap (Suc adaptiveLoops) newScrollHeight v acc)
      else (currentScrollHeight, v, acc))"
  by pat_completeness auto
termination
  by (relation "measure (\<lambda>(ops, extract, ms, cap, adaptiveLoops, h, v, acc). cap - adaptiveLoops)")
    auto

declare adaptiveWait.simps [simp del]

text \<open>
  How an iteration of the scroll loop ends: by one of its two \<open>break\<close> statements, or
  by going on to \<open>scrollCount++\<close>.
\<close>

datatype outcome = BreakStuck | BreakAtTop | Continue

text \<open>
  The body of \<open>while (scrollCount < maxScrolls)\<close>: one advance. It returns how the
  iteration ends, the new \<open>stuckCount\<close>, the page and the accumulator.
\<close>

definition advance ::
    "('v, 'd) view \<Rightarrow> ('d \<Rightarrow> accumulator \<Rightarrow> accumulator) \<Rightarrow> nat \<Rightarrow> nat
      \<Rightarrow> int \<Rightarrow> nat \<Rightarrow> 'v \<Rightarrow> accumulator \<Rightarrow> outcome \<times> nat \<times> 'v \<times> accumulator" where
  "advance ops extract ms cap scrollStep stuckCount v acc =
     (let previousScrollTop = getScrollTop ops v;
          previousScrollHeight = getScrollHeight ops v;
          v = scrollBy ops (- scrollStep) v;
          v = sleep ops 50 v;
          acc = extract (queryDocument ops v) acc;
          currentScrollTop = getScrollTop ops v;
          currentScrollHeight = getScrollHeight ops v;
          waited = adaptiveWait ops extract ms cap 0 currentScrollHeight v acc;
          currentScrollHeight = fst waited;
          v = fst (snd waited);
          acc = snd (snd waited);
          stuckCount = (if currentScrollHeight > previousScrollHeight then 0 else stuckCount)
      in if \<bar>currentScrollTop - previousScrollTop\<bar> < 10 then
           (let stuckCount = stuckCount + 1
            in if stuckCount \<ge> 3 then (BreakStuck, stuckCount, v, acc)
               else if currentScrollTop \<le> 10 then (BreakAtTop, stuckCount, v, acc)
               else (Continue, stuckCount, v, acc))
         else
           (let stuckCount = 0
            in if currentScrollTop \<le> 10 then (BreakAtTop, stuckCount, v, acc)
               else (Continue, stuckCount, v, acc)))"

text \<open>
  How the loop was left, and the run of the loop: the exit, the number of advances made
  (iterations of the loop body; a count kept for the theorems, the source has none), the
  page and the accumulator. \<open>Interrupted\<close> is for a traversal that an error ended
  before the loop was left by a \<open>break\<close> or by its condition; only variant 1 has one.
\<close>

datatype loop_exit = StuckDetected | ReachedTop | StepCap | Interrupted

record 'v traversal =
  loopExit :: loop_exit
  advances :: nat
  page :: 'v
  collected :: accumulator

function scrollLoop ::
    "('v, 'd) view \<Rightarrow> ('d \<Rightarrow> accumulator \<Rightarrow> accumulator) \<Rightarrow> nat \<Rightarrow> nat
      \<Rightarrow> int \<Rightarrow> nat \<Rightarrow> nat \<Rightarrow> nat \<Rightarrow> 'v \<Rightarrow> accumulator \<Rightarrow> 'v traversal" where
  "scrollLoop ops extract ms cap scrollStep scrollCount stuckCount made v acc =
     (if scrollCount < maxScrolls then
        (let r = advance ops extract ms cap scrollStep stuckCount v acc;
             stuckCount = fst (snd r);
             v = fst (snd (snd r));
             acc = snd (snd (snd r))
         in if fst r = BreakStuck
            then \<lparr>loopExit = StuckDetected, advances = Suc made, page = v, collected = acc\<rparr>
            else if fst r = BreakAtTop
            then \<lparr>loopExit = ReachedTop, advances = Suc made, page = v, collected = acc\<rparr>
            else scrollLoop ops extract ms cap scrollStep (Suc scrollCount) stuckCount
                   (Suc made) v acc)
      else \<lparr>loopExit = StepCap, advances = made, page = v, collected = acc\<rparr>)"
  by pat_completeness auto
termination
  by (relation "measure (\<lambda>(ops, extract, ms, cap, scrollStep, scrollCount, rest). maxScrolls - scrollCount)")
    auto

declare scrollLoop.simps [simp del]

text \<open>
  \<open>Math.floor(h * c)\<close> for an integer \<open>h\<close> and a double \<open>c = m / 2^53\<close>: the product
  \<open>|h| * m / 2^53\<close> is rounded to the 53 significant bits of a double, ties to even,
  and then floored. The double nearest to \<open>0.9\<close> is \<open>8106479329266893 / 2^53\<close>, the one
  nearest to \<open>0.7\<close> is \<open>6305039478318694 / 2^53\<close>. (\<open>h\<close> is a \<open>clientHeight\<close> or an
  \<open>innerHeight\<close>, far below \<open>2^53\<close>.)
\<close>

fun bitLength :: "nat \<Rightarrow> nat" where
  "bitLength n = (if n = 0 then 0 else Suc (bitLength (n div 2)))"

declare bitLength.simps [simp del]

definition floorOfProduct :: "nat \<Rightarrow> int \<Rightarrow> int" where
  "floorOfProduct m h =
     (let p = nat \<bar>h\<bar> * m;
          s = bitLength p - 53;
          q = p div 2 ^ s;
          r = p mod 2 ^ s;
          q = (if 2 * r > 2 ^ s \<or> (2 * r = 2 ^ s \<and> odd q) then q + 1 else q);
          n = q * 2 ^ s
      in if h \<ge> 0 then int (n div 2 ^ 53) else - int ((n + 2 ^ 53 - 1) div 2 ^ 53))"

definition nineTenths :: nat where
  "nineTenths = 8106479329266893"

definition sevenTenths :: nat where
  "sevenTenths = 6305039478318694"

text \<open>
  The run of variant 1: a traversal, and the error that ended it, if one did.
\<close>

record 'v traversal_v1 = "'v traversal" +
  thrown :: "js_error option"

text \<open>
  The adaptive wait of variant 1 (at most 3 rounds of 50 ms). A pass that throws ends
  it: the result is then the state at the throw, with the error.
\<close>

function adaptiveWait_v1 ::
    "('v, document_v1) view \<Rightarrow> nat \<Rightarrow> int \<Rightarrow> 'v \<Rightarrow> accumulator
      \<Rightarrow> (int \<times> 'v \<times> accumulator) \<times> js_error option" where
  "adaptiveWait_v1 ops adaptiveLoops currentScrollHeight v acc =
     (if adaptiveLoops < 3 then
        (let v = sleep ops 50 v;
             r = extractVisibleMessages_v1 (queryDocument ops v) acc;
             acc = fst r
         in case snd r of
              Some e \<Rightarrow> ((currentScrollHeight, v, acc), Some e)
            | None \<Rightarrow>
                (let newScrollHeight = getScrollHeight ops v;
                     newMessageCount = length (messages acc)
                 in if newScrollHeight = currentScrollHeight
                       \<and> newMessageCount = length (messages acc)
                    then ((currentScrollHeight, v, acc), None)
                    else adaptiveWait_v1 ops (Suc adaptiveLoops) newScrollHeight v acc))
      else ((currentScrollHeight, v, acc), None))"
  by pat_completeness auto
termination
  by (relation "measure (\<lambda>(ops, adaptiveLoops, h, v, acc). 3 - adaptiveLoops)") auto

declare adaptiveWait_v1.simps [simp del]

text \<open>
  One advance of variant 1: how the iteration ends (\<open>Inl\<close> the error, when a pass
  threw), the new \<open>stuckCount\<close>, the page and the accumulator.
\<close>

definition advance_v1 ::
    "('v, document_v1) view \<Rightarrow> int \<Rightarrow> nat \<Rightarrow> 'v \<Rightarrow> accumulator
      \<Rightarrow> (js_error + outcome) \<times> nat \<times> 'v \<times> accumulator" where
  "advance_v1 ops scrollStep stuckCount v acc =
     (let previousScrollTop = getScrollTop ops v;
          previousScrollHeight = getScrollHeight ops v;
          v = scrollBy ops (- scrollStep) v;
          v = sleep ops 50 v;
          r = extractVisibleMessages_v1 (queryDocument ops v) acc;
          acc = fst r
      in case snd r of
           Some e \<Rightarrow> (Inl e, stuckCount, v, acc)
         | None \<Rightarrow>
             (let currentScrollTop = getScrollTop ops v;
                  currentScrollHeight = getScrollHeight ops v;
                  waited = adaptiveWait_v1 ops 0 currentScrollHeight v acc;
                  currentScrollHeight = fst (fst waited);
                  v = fst (snd (fst waited));
                  acc = snd (snd (fst waited))
              in case snd waited of
                   Some e \<Rightarrow> (Inl e, stuckCount, v, acc)
                 | None \<Rightarrow>
                     (let stuckCount =
                            (if currentScrollHeight > previousScrollHeight then 0 else stuckCount)
                      in if \<bar>currentScrollTop - previousScrollTop\<bar> < 10 then
                           (let stuckCount = stuckCount + 1
                            in if stuckCount \<ge> 3 then (Inr BreakStuck, stuckCount, v, acc)
                               else if currentScrollTop \<le> 10
                               then (Inr BreakAtTop, stuckCount, v, acc)
                               else (Inr Continue, stuckCount, v, acc))
                         else
                           (let stuckCount = 0
                            in if currentScrollTop \<le> 10
                               then (Inr BreakAtTop, stuckCount, v, acc)
                               else (Inr Continue, stuckCount, v, acc)))))"

function scrollLoop_v1 ::
    "('v, document_v1) view \<Rightarrow> int \<Rightarrow> nat \<Rightarrow> nat \<Rightarrow> nat \<Rightarrow> 'v \<Rightarrow> accumulator
      \<Rightarrow> 'v traversal_v1" where
  "scrollLoop_v1 ops scrollStep scrollCount stuckCount made v acc =
     (if scrollCount < maxScrolls then
        (let r = advance_v1 ops scrollStep stuckCount v acc;
             stuckCount = fst (snd r);
             v = fst (snd (snd r));
             acc = snd (snd (snd r))
         in case fst r of
              Inl e \<Rightarrow>
                \<lparr>loopExit = Interrupted, advances = Suc made, page = v, collected = acc,
                 thrown = Some e\<rparr>
            | Inr outc \<Rightarrow>
                if outc = BreakStuck
                then \<lparr>loopExit = StuckDetected, advances = Suc made, page = v, collected = acc,
                      thrown = None\<rparr>
                else if outc = BreakAtTop
                then \<lparr>loopExit = ReachedTop, advances = Suc made, page = v, collected = acc,
                      thrown = None\<rparr>
                else scrollLoop_v1 ops scrollStep (Suc scrollCount) stuckCount (Suc made) v acc)
      else \<lparr>loopExit = StepCap, advances = made, page = v, collected = acc, thrown = None\<rparr>)"
  by pat_completeness auto
termination
  by (relation "measure (\<lambda>(ops, scrollStep, scrollCount, rest). maxScrolls - scrollCount)") auto

declare scrollLoop_v1.simps [simp del]

text \<open>
  \<open>autoScrollConversation\<close>, variant 1: a pass at the current position, the loop with a
  step of 90% of the viewport (at least 500), a last pass. An error thrown by the first
  pass ends the traversal before the loop, one thrown in the loop ends it there, and the
  last pass can throw as well.
\<close>

definition autoScrollConversation_v1 ::
    "('v, document_v1) view \<Rightarrow> 'v \<Rightarrow> accumulator \<Rightarrow> 'v traversal_v1" where
  "autoScrollConversation_v1 ops v acc =
     (let r = extractVisibleMessages_v1 (queryDocument ops v) acc;
          acc = fst r
      in case snd r of
           Some e \<Rightarrow>
             \<lparr>loopExit = Interrupted, advances = 0, page = v, collected = acc, thrown = Some e\<rparr>
         | None \<Rightarrow>
             (let scrollStep = max 500 (floorOfProduct nineTenths (getClientHeight ops v));
                  t = scrollLoop_v1 ops scrollStep 0 0 0 v acc
              in case thrown t of
                   Some e \<Rightarrow> t
                 | None \<Rightarrow>
                     (let r = extractVisibleMessages_v1 (queryDocument ops (page t)) (collected t)
                      in t\<lparr>collected := fst r, thrown := snd r\<rparr>)))"

text \<open>
  Variant 2: jump to the bottom, two appending passes, the loop with prepending passes
  and a step of 70% of the viewport (at least 400), then four more prepending passes
  around two jumps to the top.
\<close>

definition autoScrollConversation_v2 ::
    "('v, element list) view \<Rightarrow> 'v \<Rightarrow> accumulator \<Rightarrow> 'v traversal" where
  "autoScrollConversation_v2 ops v acc =
     (let v = setScrollTop ops (getScrollHeight ops v) v;
          v = sleep ops 200 v;
          acc = extractVisibleMessages_v2 False (queryDocument ops v) acc;
          v = sleep ops 100 v;
          acc = extractVisibleMessages_v2 False (queryDocument ops v) acc;
          scrollStep = max 400 (floorOfProduct sevenTenths (getClientHeight ops v));
          t = scrollLoop ops (extractVisibleMessages_v2 True) 75 5 scrollStep 0 0 0 v acc;
          v = page t;
          acc = extractVisibleMessages_v2 True (queryDocument ops v) (collected t);
          v = setScrollTop ops 0 v;
          v = sleep ops 300 v;
          acc = extractVisibleMessages_v2 True (queryDocument ops v) acc;
          v = sleep ops 200 v;
          acc = extractVisibleMessages_v2 True (queryDocument ops v) acc;
          v = setScrollTop ops 0 v;
          v = sleep ops 200 v;
          acc = extractVisibleMessages_v2 True (queryDocument ops v) acc
      in t\<lparr>page := v, collected := acc\<rparr>)"

section \<open>The request handler\<close>

text \<open>
  The response sent back to the popup: \<open>{ success: true, markdown, title, messageCount }\<close>
  or \<open>{ success: false, error }\<close>.
\<close>

datatype response =
  Success (markdownOf: js_string) (titleOf: js_string) (messageCount: nat)
| Failure (errorOf: js_string)

definition noMessagesError :: js_string where
  "noMessagesError =
     ascii ''No chat messages found. Make sure you are on a Gemini chat page with an active conversation.''"

text \<open>
  The body of the \<open>try\<close> after the traversal, and the \<open>catch\<close>: the traversal either
  threw an error with message \<open>e\<close> (\<open>Inl e\<close>) or left the array \<open>messages\<close>. \<open>title\<close> is
  the result of \<open>getChatTitle()\<close>. Variant 1 reverses the deduplicated array.
\<close>

definition respond_v1 ::
    "js_string + message list \<Rightarrow> js_string \<Rightarrow> js_string \<Rightarrow> js_string \<Rightarrow> response" where
  "respond_v1 traversed title date timezone =
     (case traversed of
        Inl e \<Rightarrow> Failure (ascii ''Failed to extract chat: '' @ e)
      | Inr msgs \<Rightarrow>
          (let dedupedMessages = rev (deduplicateMessages msgs)
           in if length dedupedMessages = 0 then Failure noMessagesError
              else Success (formatAsMarkdown_v1 date timezone dedupedMessages title) title
                     (length dedupedMessages)))"

definition respond_v2 ::
    "js_string + message list \<Rightarrow> js_string \<Rightarrow> js_string \<Rightarrow> js_string \<Rightarrow> response" where
  "respond_v2 traversed title date timezone =
     (case traversed of
        Inl e \<Rightarrow> Failure (ascii ''Failed to extract chat: '' @ e)
      | Inr msgs \<Rightarrow>
          (let dedupedMessages = deduplicateMessages msgs
           in if length dedupedMessages = 0 then Failure noMessagesError
              else Success (formatAsMarkdown_v2 date timezone dedupedMessages title) title
                     (length dedupedMessages)))"

text \<open>
  The handler of an \<open>extractChat\<close> request on a view whose operations do not throw. In
  variant 1 the traversal itself can throw; \<open>errorMessage\<close> gives \<open>error.message\<close> of
  the error caught, in the engine's wording.
\<close>

definition extractChat_v1 ::
    "(js_error \<Rightarrow> js_string) \<Rightarrow> ('v, document_v1) view \<Rightarrow> 'v
      \<Rightarrow> js_string \<Rightarrow> js_string \<Rightarrow> js_string \<Rightarrow> response" where
  "extractChat_v1 errorMessage ops v title date timezone =
     (let t = autoScrollConversation_v1 ops v emptyAccumulator
      in respond_v1
           (case thrown t of
              Some e \<Rightarrow> Inl (errorMessage e)
            | None \<Rightarrow> Inr (messages (collected t)))
           title date timezone)"

definition extractChat_v2 ::
    "('v, element list) view \<Rightarrow> 'v \<Rightarrow> js_string \<Rightarrow> js_string \<Rightarrow> js_string \<Rightarrow> response" where
  "extractChat_v2 ops v title date timezone =
     respond_v2
       (Inr (messages (collected (autoScrollConversation_v2 ops v emptyAccumulator))))
       title date timezone"

section \<open>Invariants, hypotheses on views and test views\<close>

text \<open>
  The invariant of the Accumulator with its Seen-Set: the fingerprints of the accumulated
  messages are pairwise distinct and each of them is in \<open>seenContent\<close>.
\<close>

definition accumulatorInvariant :: "accumulator \<Rightarrow> bool" where
  "accumulatorInvariant acc =
     (distinct (map fingerprintOf (messages acc))
      \<and> fingerprintOf ` set (messages acc) \<subseteq> seenContent acc)"

text \<open>
  The same inside a pass of variant 2, for \<open>newMessages\<close> and the set, where \<open>seen0\<close> is
  the set the pass started with.
\<close>

definition newMessagesInvariant :: "js_string set \<Rightarrow> message list \<times> js_string set \<Rightarrow> bool" where
  "newMessagesInvariant seen0 st =
     (distinct (map fingerprintOf (fst st))
      \<and> fingerprintOf ` set (fst st) \<subseteq> snd st
      \<and> fingerprintOf ` set (fst st) \<inter> seen0 = {}
      \<and> seen0 \<subseteq> snd st)"

text \<open>
  A view is fully stuck when neither scrolling nor waiting changes the scroll position;
  its scroll height never grows when neither of them increases it.
\<close>

definition positionStuck :: "('v, 'd) view \<Rightarrow> bool" where
  "positionStuck ops =
     (\<forall>v a n. getScrollTop ops (scrollBy ops a v) = getScrollTop ops v
            \<and> getScrollTop ops (sleep ops n v) = getScrollTop ops v)"

definition heightNeverGrows :: "('v, 'd) view \<Rightarrow> bool" where
  "heightNeverGrows ops =
     (\<forall>v a n. getScrollHeight ops (scrollBy ops a v) \<le> getScrollHeight ops v
            \<and> getScrollHeight ops (sleep ops n v) \<le> getScrollHeight ops v)"

text \<open>
  Two simulated views whose state is the scroll height. In \<open>frozenView\<close> nothing ever
  changes: the position is \<open>pos\<close> and the document is \<open>doc\<close>. In \<open>growingView\<close> the
  position is stuck at \<open>pos\<close> as well, but every \<open>scrollBy\<close> makes the page one pixel
  higher, as a page does that loads content above the viewport.
\<close>

definition frozenView :: "int \<Rightarrow> 'd \<Rightarrow> (nat, 'd) view" where
  "frozenView pos doc =
     \<lparr>getScrollTop = (\<lambda>h. pos), getScrollHeight = (\<lambda>h. int h), getClientHeight = (\<lambda>h. 800),
      scrollBy = (\<lambda>a h. h), setScrollTop = (\<lambda>y h. h), sleep = (\<lambda>n h. h),
      queryDocument = (\<lambda>h. doc)\<rparr>"

definition growingView :: "int \<Rightarrow> 'd \<Rightarrow> (nat, 'd) view" where
  "growingView pos doc =
     \<lparr>getScrollTop = (\<lambda>h. pos), getScrollHeight = (\<lambda>h. int h), getClientHeight = (\<lambda>h. 800),
      scrollBy = (\<lambda>a h. Suc h), setScrollTop = (\<lambda>y h. h), sleep = (\<lambda>n h. h),
      queryDocument = (\<lambda>h. doc)\<rparr>"

definition emptyDocument_v1 :: document_v1 where
  "emptyDocument_v1 = \<lparr>turnContainers = [], mainContent = None\<rparr>"

text \<open>
  A document of variant 1 without turn containers whose main content area holds one
  candidate, an \<open>svg\<close> element (\<open>class="query-icon"\<close>): its \<open>className\<close> is an
  \<open>SVGAnimatedString\<close>.
\<close>

definition svgDocument_v1 :: document_v1 where
  "svgDocument_v1 =
     \<lparr>turnContainers = [],
      mainContent = Some [\<lparr>tagName = OTHER_TAG, className = SVGAnimatedString,
        roleAttribute = None, elTimestamp = None, markdown = []\<rparr>]\<rparr>"

text \<open>
  A document of variant 1 in which the \<open>className\<close> of every candidate of the main
  content area is a string, as it is when all of them are HTML elements.
\<close>

definition stringClassNames :: "document_v1 \<Rightarrow> bool" where
  "stringClassNames doc =
     (case mainContent doc of
        None \<Rightarrow> True
      | Some potentialMessages \<Rightarrow>
          list_all (\<lambda>el. className el \<noteq> SVGAnimatedString) potentialMessages)"

section \<open>Strings and deduplication: proofs\<close>

lemma decimal_digit: "n < 10 \<Longrightarrow> decimal n = [48 + n]"
  by (subst decimal.simps) simp

lemma decimal_more: "10 \<le> n \<Longrightarrow> decimal n = decimal (n div 10) @ [48 + n mod 10]"
  by (subst decimal.simps) simp

lemmas string_eval =
  ascii_def trim_def trimStart_def trimEnd_def isWhiteSpace_def decimal_digit decimal_more

lemma dedupe_loop_result: "dedupe_loop seen (r @ r') ms = r @ dedupe_loop seen r' ms"
  by (induction ms arbitrary: seen r') (simp_all add: Let_def dedupe_loop.simps(2))

lemma dedupe_loop_Cons:
  "dedupe_loop seen [] (m # ms) =
     (if fingerprintOf m \<in> seen then dedupe_loop seen [] ms
      else m # dedupe_loop (insert (fingerprintOf m) seen) [] ms)"
  using dedupe_loop_result [of "insert (fingerprintOf m) seen" "[m]" "[]" ms]
  by (simp add: Let_def dedupe_loop.simps(2))

lemma dedupe_loop_subseq: "subseq (dedupe_loop seen [] ms) ms"
  by (induction ms arbitrary: seen) (auto simp: dedupe_loop_Cons intro: subseq_Cons')

lemma dedupe_loop_keys:
  "set (map fingerprintOf (dedupe_loop seen [] ms)) = fingerprintOf ` set ms - seen"
  by (induction ms arbitrary: seen) (auto simp: dedupe_loop_Cons)

lemma dedupe_loop_distinct: "distinct (map fingerprintOf (dedupe_loop seen [] ms))"
proof (induction ms arbitrary: seen)
  case Nil
  show ?case by simp
next
  case (Cons m ms)
  have "fingerprintOf m \<notin> set (map fingerprintOf (dedupe_loop (insert (fingerprintOf m) seen) [] ms))"
    unfolding dedupe_loop_keys by simp
  with Cons show ?case by (simp add: dedupe_loop_Cons)
qed

lemma dedupe_loop_index:
  "dedupe_loop seen [] ms =
     map (\<lambda>i. ms ! i)
       (filter (\<lambda>i. fingerprintOf (ms ! i) \<notin> seen \<union> set (map fingerprintOf (take i ms)))
          [0..<length ms])"
proof (induction ms arbitrary: seen)
  case Nil
  show ?case by simp
next
  case (Cons m ms)
  have upt: "[0..<length (m # ms)] = 0 # map Suc [0..<length ms]"
    by (simp add: upt_conv_Cons map_Suc_upt del: upt_Suc)
  show ?case
  proof (cases "fingerprintOf m \<in> seen")
    case True
    then show ?thesis
      unfolding upt
      apply (simp add: dedupe_loop_Cons Cons.IH filter_map comp_def)
      apply (rule arg_cong [where f = "map ((!) ms)"])
      apply (rule filter_cong)
       apply auto
      done
  next
    case False
    then show ?thesis
      unfolding upt
      apply (simp add: dedupe_loop_Cons Cons.IH filter_map comp_def)
      apply (rule arg_cong [where f = "map ((!) ms)"])
      apply (rule filter_cong)
       apply auto
      done
  qed
qed

lemma dedupe_loop_fixed:
  "distinct (map fingerprintOf ms) \<Longrightarrow> fingerprintOf ` set ms \<inter> seen = {}
    \<Longrightarrow> dedupe_loop seen [] ms = ms"
  by (induction ms arbitrary: seen) (auto simp: dedupe_loop_Cons)

lemma dedupe_loop_append:
  "dedupe_loop seen [] (xs @ ys) =
     dedupe_loop seen [] xs @ dedupe_loop (seen \<union> fingerprintOf ` set xs) [] ys"
  by (induction xs arbitrary: seen) (auto simp: dedupe_loop_Cons insert_absorb)

lemma dedupe_loop_map:
  "(\<And>m. content (f m) = content m)
    \<Longrightarrow> dedupe_loop seen [] (map f ms) = map f (dedupe_loop seen [] ms)"
  by (induction ms arbitrary: seen) (simp_all add: dedupe_loop_Cons)

lemma dedupe_length: "length (dedupe_loop {} [] ms) = card (fingerprintOf ` set ms)"
proof -
  have "length (dedupe_loop {} [] ms) = length (map fingerprintOf (dedupe_loop {} [] ms))"
    by simp
  also have "\<dots> = card (set (map fingerprintOf (dedupe_loop {} [] ms)))"
    by (rule distinct_card [symmetric]) (rule dedupe_loop_distinct)
  also have "\<dots> = card (fingerprintOf ` set ms)"
    unfolding dedupe_loop_keys by simp
  finally show ?thesis .
qed

lemmas dedupe_eval = deduplicateMessages_def dedupe_loop_Cons

text \<open>
  Claim C2. For every finite sequence of messages, \<open>deduplicateMessages\<close> returns the
  subsequence that keeps, for each fingerprint, exactly the first message in the supplied
  order whose content has that fingerprint: message \<open>i\<close> is kept exactly when no earlier
  message has its fingerprint (\<open>firstOccurrences\<close>). The kept messages are the supplied
  ones, whole and in order (a subsequence), their fingerprints are pairwise distinct, and
  their number is the number of distinct fingerprints among the input contents.
\<close>

theorem deduplicateMessages_keeps_first:
  "deduplicateMessages msgs = firstOccurrences msgs
   \<and> subseq (deduplicateMessages msgs) msgs
   \<and> distinct (map fingerprintOf (deduplicateMessages msgs))
   \<and> length (deduplicateMessages msgs) = card (fingerprintOf ` set msgs)"
  unfolding deduplicateMessages_def firstOccurrences_def
  using dedupe_loop_index [of "{}" msgs] dedupe_loop_subseq [of "{}" msgs]
    dedupe_loop_distinct [of "{}" msgs] dedupe_length [of msgs]
  by simp

theorem deduplicateMessages_keeps_first_witness:
  "deduplicateMessages
     [\<lparr>role = User, content = ascii ''hi'', timestamp = None\<rparr>,
      \<lparr>role = Assistant, content = ascii ''hello'', timestamp = None\<rparr>,
      \<lparr>role = Assistant, content = ascii ''hi'', timestamp = Some (ascii ''10:30'')\<rparr>]
   = [\<lparr>role = User, content = ascii ''hi'', timestamp = None\<rparr>,
      \<lparr>role = Assistant, content = ascii ''hello'', timestamp = None\<rparr>]
   \<and> firstOccurrences
     [\<lparr>role = User, content = ascii ''hi'', timestamp = None\<rparr>,
      \<lparr>role = Assistant, content = ascii ''hello'', timestamp = None\<rparr>,
      \<lparr>role = Assistant, content = ascii ''hi'', timestamp = Some (ascii ''10:30'')\<rparr>]
   = [\<lparr>role = User, content = ascii ''hi'', timestamp = None\<rparr>,
      \<lparr>role = Assistant, content = ascii ''hello'', timestamp = None\<rparr>]"
  (is "deduplicateMessages ?L = ?R \<and> _")
proof -
  have e: "deduplicateMessages ?L = ?R"
    by (simp add: dedupe_eval hashContent_def string_eval)
  from deduplicateMessages_keeps_first [of ?L]
  have "firstOccurrences ?L = deduplicateMessages ?L"
    by simp
  with e show ?thesis
    by simp
qed

text \<open>
  Claim C9. \<open>deduplicateMessages\<close> is idempotent: applying it twice yields the same
  sequence as applying it once.
\<close>

theorem deduplicateMessages_idempotent:
  "deduplicateMessages (deduplicateMessages msgs) = deduplicateMessages msgs"
  unfolding deduplicateMessages_def
  by (rule dedupe_loop_fixed) (simp_all add: dedupe_loop_distinct)

text \<open>
  Claim C3. \<open>hashContent\<close> is a function of the content string alone, so equal strings
  have equal fingerprints; and for a non-empty content it is the trimmed first 100
  characters of the content, then the separator \<open>|\<close>, then the full content length.
\<close>

theorem hashContent_fingerprint:
  "(c1 = c2 \<longrightarrow> hashContent c1 = hashContent c2)
   \<and> (c \<noteq> [] \<longrightarrow> hashContent c = trim (take 100 c) @ ascii ''|'' @ decimal (length c)
                       \<and> hashContent c = spec_fingerprint c)"
  by (simp add: hashContent_def spec_fingerprint_def ascii_def)

theorem hashContent_fingerprint_witness:
  "ascii ''  hello world '' \<noteq> []
   \<and> hashContent (ascii ''  hello world '') = ascii ''hello world|14''"
  using hashContent_fingerprint [of "ascii ''  hello world ''" "ascii ''  hello world ''" "ascii ''  hello world ''"]
  by (simp add: string_eval)

text \<open>
  Claim C10. \<open>deduplicateMessages\<close> compares only the content field: changing roles and
  timestamps by any function \<open>f\<close> that keeps every content commutes with it; of two
  messages whose contents share a fingerprint the later one is dropped, wherever the two
  stand, and the first survives as it is, with its own role and timestamp; in particular
  a user message followed by an assistant message with the same content gives one entry,
  the user message.
\<close>

theorem dedupe_compares_content_only:
  "((\<forall>m. content (f m) = content m)
      \<longrightarrow> deduplicateMessages (map f msgs) = map f (deduplicateMessages msgs))
   \<and> (fingerprintOf a = fingerprintOf b
      \<longrightarrow> deduplicateMessages (xs @ a # ys @ b # zs) = deduplicateMessages (xs @ a # ys @ zs)
          \<and> deduplicateMessages [a, b] = [a])
   \<and> deduplicateMessages
        [\<lparr>role = User, content = c, timestamp = t1\<rparr>,
         \<lparr>role = Assistant, content = c, timestamp = t2\<rparr>]
       = [\<lparr>role = User, content = c, timestamp = t1\<rparr>]"
proof (intro conjI impI)
  assume "\<forall>m. content (f m) = content m"
  then show "deduplicateMessages (map f msgs) = map f (deduplicateMessages msgs)"
    unfolding deduplicateMessages_def by (simp add: dedupe_loop_map)
next
  assume eq: "fingerprintOf a = fingerprintOf b"
  have drop: "dedupe_loop S [] (b # zs) = dedupe_loop S [] zs" if "fingerprintOf b \<in> S" for S
    using that by (simp add: dedupe_loop_Cons)
  show "deduplicateMessages (xs @ a # ys @ b # zs) = deduplicateMessages (xs @ a # ys @ zs)"
    using eq unfolding deduplicateMessages_def
    by (simp add: dedupe_loop_append dedupe_loop_Cons)
  show "deduplicateMessages [a, b] = [a]"
    using eq unfolding deduplicateMessages_def by (simp add: dedupe_loop_Cons)
next
  show "deduplicateMessages
        [\<lparr>role = User, content = c, timestamp = t1\<rparr>,
         \<lparr>role = Assistant, content = c, timestamp = t2\<rparr>]
       = [\<lparr>role = User, content = c, timestamp = t1\<rparr>]"
    unfolding deduplicateMessages_def by (simp add: dedupe_loop_Cons)
qed

theorem dedupe_compares_content_only_witness:
  "(\<forall>m. content (m\<lparr>role := Assistant, timestamp := None\<rparr>) = content m)
   \<and> deduplicateMessages
       (map (\<lambda>m. m\<lparr>role := Assistant, timestamp := None\<rparr>)
          [\<lparr>role = User, content = ascii ''hi'', timestamp = Some (ascii ''10:30'')\<rparr>])
     = map (\<lambda>m. m\<lparr>role := Assistant, timestamp := None\<rparr>)
         (deduplicateMessages
            [\<lparr>role = User, content = ascii ''hi'', timestamp = Some (ascii ''10:30'')\<rparr>])
   \<and> fingerprintOf \<lparr>role = User, content = ascii ''hi'', timestamp = None\<rparr>
       = fingerprintOf \<lparr>role = Assistant, content = ascii ''hi'', timestamp = Some (ascii ''10:30'')\<rparr>
   \<and> deduplicateMessages
        [\<lparr>role = User, content = ascii ''hi'', timestamp = None\<rparr>,
         \<lparr>role = Assistant, content = ascii ''hi'', timestamp = Some (ascii ''10:30'')\<rparr>]
       = [\<lparr>role = User, content = ascii ''hi'', timestamp = None\<rparr>]"
  using dedupe_compares_content_only
    [of "\<lambda>m. m\<lparr>role := Assistant, timestamp := None\<rparr>"
        "[\<lparr>role = User, content = ascii ''hi'', timestamp = Some (ascii ''10:30'')\<rparr>]"
        "\<lparr>role = User, content = ascii ''hi'', timestamp = None\<rparr>"
        "\<lparr>role = Assistant, content = ascii ''hi'', timestamp = Some (ascii ''10:30'')\<rparr>"
        "[]" "[]" "[]" "ascii ''hi''" None None]
  by (simp add: dedupe_eval hashContent_def string_eval)

section \<open>Role classification and timestamps: proofs\<close>

lemma js_includes_sublist: "js_includes s needle = sublist needle s"
  by (induction s) (auto simp: sublist_Cons_right)

lemma determineMessageRole_unfold:
  "className el = ClassString s \<Longrightarrow>
   determineMessageRole el =
     (if roleAttribute el = Some (ascii ''user'')
         \<or> (\<exists>w \<in> set [ascii ''user'', ascii ''query'', ascii ''human'', ascii ''prompt''].
               sublist w (toLowerCase s))
      then Inr User else Inr Assistant)"
  by (simp add: determineMessageRole_def Let_def js_includes_sublist)

text \<open>
  Claim C7, as the code has it. Classifying an element whose \<open>className\<close> is not a
  string (an SVG element) throws a \<open>TypeError\<close>. For an element whose \<open>className\<close> is
  a string (every HTML element): if its \<open>data-message-author-role\<close> attribute is
  \<open>user\<close> it is classified as the human participant whatever its class names; if the
  attribute is absent or has any other value, the class name alone decides: the element
  is classified as the human participant exactly when its lower-cased class name
  contains \<open>user\<close>, \<open>query\<close>, \<open>human\<close> or \<open>prompt\<close>. Everything else is classified
  as assistant.
\<close>

theorem determineMessageRole_precedence:
  "(className el = SVGAnimatedString \<longrightarrow> determineMessageRole el = Inl TypeError)
   \<and> (className el = ClassString s \<longrightarrow>
        (roleAttribute el = Some (ascii ''user'') \<longrightarrow> determineMessageRole el = Inr User)
        \<and> (roleAttribute el \<noteq> Some (ascii ''user'') \<longrightarrow>
             (determineMessageRole el = Inr User) =
               (\<exists>w \<in> set [ascii ''user'', ascii ''query'', ascii ''human'', ascii ''prompt''].
                  sublist w (toLowerCase s)))
        \<and> (determineMessageRole el = Inr Assistant) = (determineMessageRole el \<noteq> Inr User))"
proof (intro conjI impI)
  assume "className el = SVGAnimatedString"
  then show "determineMessageRole el = Inl TypeError"
    by (simp add: determineMessageRole_def)
next
  assume c: "className el = ClassString s"
  {
    assume "roleAttribute el = Some (ascii ''user'')"
    then show "determineMessageRole el = Inr User"
      by (simp add: determineMessageRole_unfold [OF c])
  }
  {
    assume "roleAttribute el \<noteq> Some (ascii ''user'')"
    then show "(determineMessageRole el = Inr User) =
        (\<exists>w \<in> set [ascii ''user'', ascii ''query'', ascii ''human'', ascii ''prompt''].
           sublist w (toLowerCase s))"
      unfolding determineMessageRole_unfold [OF c] by auto
  }
  show "(determineMessageRole el = Inr Assistant) = (determineMessageRole el \<noteq> Inr User)"
    unfolding determineMessageRole_unfold [OF c] by auto
qed

text \<open>
  The attribute does not take precedence when it names the model: an element with the
  attribute \<open>model\<close> and the class \<open>response-to-query\<close> is classified as the human
  participant.
\<close>

theorem determineMessageRole_counterexample:
  "determineMessageRole
     \<lparr>tagName = OTHER_TAG, className = ClassString (ascii ''response-to-query''),
      roleAttribute = Some (ascii ''model''), elTimestamp = None, markdown = ascii ''Hello''\<rparr>
   = Inr User"
  by (simp add: determineMessageRole_def toLowerCase_def ascii_def)

theorem determineMessageRole_precedence_witness:
  "roleAttribute \<lparr>tagName = OTHER_TAG, className = ClassString (ascii ''Model-Response''),
      roleAttribute = Some (ascii ''user''), elTimestamp = None, markdown = ascii ''Hello''\<rparr>
     = Some (ascii ''user'')
   \<and> determineMessageRole \<lparr>tagName = OTHER_TAG, className = ClassString (ascii ''Model-Response''),
      roleAttribute = Some (ascii ''user''), elTimestamp = None, markdown = ascii ''Hello''\<rparr>
     = Inr User
   \<and> roleAttribute \<lparr>tagName = OTHER_TAG, className = ClassString (ascii ''User-Query-Container''),
      roleAttribute = None, elTimestamp = None, markdown = ascii ''Hello''\<rparr>
     \<noteq> Some (ascii ''user'')
   \<and> determineMessageRole \<lparr>tagName = OTHER_TAG, className = ClassString (ascii ''User-Query-Container''),
      roleAttribute = None, elTimestamp = None, markdown = ascii ''Hello''\<rparr>
     = Inr User
   \<and> className \<lparr>tagName = OTHER_TAG, className = SVGAnimatedString,
      roleAttribute = Some (ascii ''user''), elTimestamp = None, markdown = ascii ''Hello''\<rparr>
     = SVGAnimatedString
   \<and> determineMessageRole \<lparr>tagName = OTHER_TAG, className = SVGAnimatedString,
      roleAttribute = Some (ascii ''user''), elTimestamp = None, markdown = ascii ''Hello''\<rparr>
     = Inl TypeError"
  (is "?H1 \<and> ?R1 \<and> ?H2 \<and> ?R2 \<and> ?H3 \<and> ?R3")
proof -
  have h1: ?H1 and h2: ?H2 and h3: ?H3
    by simp_all
  have s: "sublist (ascii ''user'') (toLowerCase (ascii ''User-Query-Container''))"
    by (simp add: js_includes_sublist [symmetric] toLowerCase_def ascii_def)
  from determineMessageRole_precedence
    [of "\<lparr>tagName = OTHER_TAG, className = ClassString (ascii ''Model-Response''),
      roleAttribute = Some (ascii ''user''), elTimestamp = None, markdown = ascii ''Hello''\<rparr>"
      "ascii ''Model-Response''"]
  have r1: ?R1
    by simp
  from determineMessageRole_precedence
    [of "\<lparr>tagName = OTHER_TAG, className = ClassString (ascii ''User-Query-Container''),
      roleAttribute = None, elTimestamp = None, markdown = ascii ''Hello''\<rparr>"
      "ascii ''User-Query-Container''"] s
  have r2: ?R2
    by simp
  from determineMessageRole_precedence
    [of "\<lparr>tagName = OTHER_TAG, className = SVGAnimatedString,
      roleAttribute = Some (ascii ''user''), elTimestamp = None, markdown = ascii ''Hello''\<rparr>"
      "[]"]
  have r3: ?R3
    by simp
  from h1 r1 h2 r2 h3 r3 show ?thesis
    by blast
qed

lemma digitsValue_snoc: "digitsValue (ds @ [d]) = 10 * digitsValue ds + (int d - 48)"
  by (simp add: digitsValue_def)

lemma digitsValue_bounds:
  "list_all isDigit ds \<Longrightarrow> 0 \<le> digitsValue ds \<and> digitsValue ds < 10 ^ length ds"
proof (induction ds rule: rev_induct)
  case Nil
  show ?case by (simp add: digitsValue_def)
next
  case (snoc d ds)
  then have "0 \<le> digitsValue ds" "digitsValue ds + 1 \<le> 10 ^ length ds" "48 \<le> d" "d \<le> 57"
    by (simp_all add: isDigit_def)
  then show ?case
    by (simp add: digitsValue_snoc)
qed

lemma digitsValue_lower:
  "list_all isDigit ds \<Longrightarrow> ds \<noteq> [] \<Longrightarrow> hd ds \<noteq> 48 \<Longrightarrow> 10 ^ (length ds - 1) \<le> digitsValue ds"
proof (induction ds rule: rev_induct)
  case Nil
  then show ?case by simp
next
  case (snoc d ds)
  show ?case
  proof (cases "ds = []")
    case True
    with snoc.prems show ?thesis
      by (auto simp: digitsValue_def isDigit_def)
  next
    case False
    with snoc have "10 ^ (length ds - 1) \<le> digitsValue ds" "48 \<le> d"
      by (simp_all add: isDigit_def)
    then have "10 * 10 ^ (length ds - 1) \<le> digitsValue (ds @ [d])"
      by (simp add: digitsValue_snoc)
    moreover have "(10::int) * 10 ^ (length ds - 1) = 10 ^ length ds"
      using False by (cases ds) simp_all
    ultimately show ?thesis
      by simp
  qed
qed

lemma isDigit_not_space: "isDigit c \<Longrightarrow> \<not> isWhiteSpace c \<and> c \<noteq> 43 \<and> c \<noteq> 45"
  by (auto simp: isDigit_def isWhiteSpace_def)

lemma parseInt10_digits:
  assumes "list_all isDigit ds" "ds \<noteq> []"
  shows "parseInt10 ds = Some (digitsValue ds)"
proof -
  obtain d rest where ds: "ds = d # rest"
    using assms(2) by (cases ds) auto
  with assms(1) have d: "isDigit d"
    by simp
  have tw: "takeWhile isDigit ds = ds"
    using assms(1) by (simp add: takeWhile_eq_all_conv list_all_iff)
  show ?thesis
    using isDigit_not_space [OF d] tw assms(2) unfolding parseInt10_def trimStart_def ds
    by (simp add: Let_def)
qed

lemma formatTimestamp_number:
  "parseInt10 value = Some num \<Longrightarrow>
   formatTimestamp parseDate toLocaleString value =
     (if num \<le> 9999999999 \<and> validTime (num * 1000) then toLocaleString (num * 1000)
      else if num > 9999999999 \<and> validTime num then toLocaleString num
      else (case parseDate value of Some t \<Rightarrow> toLocaleString t | None \<Rightarrow> value))"
  by (simp add: formatTimestamp_def Let_def)

text \<open>
  Claim C6, as the code has it. A value made of decimal digits only is read as Unix time:
  as seconds when it has at most 10 digits, and as milliseconds when it has more than 10
  digits, no leading zero and is at most 8640000000000000 (the largest time value of a
  \<open>Date\<close>); it is then rendered by \<open>toLocaleString\<close>. A longer number is handled as a
  non-numeric value is. A value in which \<open>parseInt\<close> finds no number is parsed as a
  generic date string and rendered by \<open>toLocaleString\<close> when that gives a date, and is
  returned unmodified when not.
\<close>

theorem formatTimestamp_cases:
  "(value \<noteq> [] \<and> list_all isDigit value \<and> length value \<le> 10 \<longrightarrow>
      formatTimestamp parseDate toLocaleString value = toLocaleString (digitsValue value * 1000))
   \<and> (list_all isDigit value \<and> length value > 10 \<and> hd value \<noteq> 48
        \<and> digitsValue value \<le> 8640000000000000 \<longrightarrow>
      formatTimestamp parseDate toLocaleString value = toLocaleString (digitsValue value))
   \<and> (list_all isDigit value \<and> length value > 10 \<and> hd value \<noteq> 48
        \<and> digitsValue value > 8640000000000000 \<longrightarrow>
      formatTimestamp parseDate toLocaleString value =
        (case parseDate value of Some t \<Rightarrow> toLocaleString t | None \<Rightarrow> value))
   \<and> (parseInt10 value = None \<longrightarrow>
      formatTimestamp parseDate toLocaleString value =
        (case parseDate value of Some t \<Rightarrow> toLocaleString t | None \<Rightarrow> value))"
proof (intro conjI impI)
  assume a: "value \<noteq> [] \<and> list_all isDigit value \<and> length value \<le> 10"
  then have p: "parseInt10 value = Some (digitsValue value)"
    by (simp add: parseInt10_digits)
  have "digitsValue value < 10 ^ length value" "0 \<le> digitsValue value"
    using a digitsValue_bounds by blast+
  moreover have "(10::int) ^ length value \<le> 10 ^ 10"
    using a by (intro power_increasing) simp_all
  ultimately have "digitsValue value \<le> 9999999999" "validTime (digitsValue value * 1000)"
    by (simp_all add: validTime_def)
  then show "formatTimestamp parseDate toLocaleString value = toLocaleString (digitsValue value * 1000)"
    by (simp add: formatTimestamp_number [OF p])
next
  assume a: "list_all isDigit value \<and> length value > 10 \<and> hd value \<noteq> 48
        \<and> digitsValue value \<le> 8640000000000000"
  then have ne: "value \<noteq> []"
    by auto
  then have p: "parseInt10 value = Some (digitsValue value)"
    using a by (simp add: parseInt10_digits)
  have "10 \<le> length value - 1"
    using a by auto
  then have "(10::int) ^ 10 \<le> 10 ^ (length value - 1)"
    by (intro power_increasing) simp_all
  moreover have "10 ^ (length value - 1) \<le> digitsValue value"
    using digitsValue_lower [of "value"] a ne by simp
  ultimately have "digitsValue value > 9999999999" "validTime (digitsValue value)"
    using a by (simp_all add: validTime_def)
  then show "formatTimestamp parseDate toLocaleString value = toLocaleString (digitsValue value)"
    by (simp add: formatTimestamp_number [OF p])
next
  assume a: "list_all isDigit value \<and> length value > 10 \<and> hd value \<noteq> 48
        \<and> digitsValue value > 8640000000000000"
  then have ne: "value \<noteq> []"
    by auto
  then have p: "parseInt10 value = Some (digitsValue value)"
    using a by (simp add: parseInt10_digits)
  have "digitsValue value > 9999999999" "\<not> validTime (digitsValue value)"
    using a by (simp_all add: validTime_def)
  then show "formatTimestamp parseDate toLocaleString value =
        (case parseDate value of Some t \<Rightarrow> toLocaleString t | None \<Rightarrow> value)"
    by (simp add: formatTimestamp_number [OF p])
next
  assume "parseInt10 value = None"
  then show "formatTimestamp parseDate toLocaleString value =
        (case parseDate value of Some t \<Rightarrow> toLocaleString t | None \<Rightarrow> value)"
    by (simp add: formatTimestamp_def)
qed

lemmas parse_eval =
  parseInt10_def trimStart_def isWhiteSpace_def isDigit_def digitsValue_def ascii_def Let_def

text \<open>
  A value that parses as a number is not always rendered as a date: a Unix time in
  nanoseconds, which no \<open>Date\<close> holds and the generic parse rejects, comes back
  unmodified.
\<close>

theorem formatTimestamp_counterexample:
  "parseInt10 (ascii ''1700000000000000000'') = Some 1700000000000000000
   \<and> formatTimestamp (\<lambda>s. None) (\<lambda>t. ascii ''11/14/2023, 10:13:20 PM'')
       (ascii ''1700000000000000000'')
     = ascii ''1700000000000000000''"
  by (simp add: formatTimestamp_def validTime_def parse_eval)

theorem formatTimestamp_cases_witness:
  "(ascii ''1700000000'' \<noteq> [] \<and> list_all isDigit (ascii ''1700000000'')
      \<and> length (ascii ''1700000000'') \<le> 10)
   \<and> formatTimestamp (\<lambda>s. None) (\<lambda>t. if t = 1700000000000 then ascii ''seconds'' else ascii ''other'')
        (ascii ''1700000000'') = ascii ''seconds''
   \<and> (list_all isDigit (ascii ''1700000000000'') \<and> length (ascii ''1700000000000'') > 10
      \<and> hd (ascii ''1700000000000'') \<noteq> 48 \<and> digitsValue (ascii ''1700000000000'') \<le> 8640000000000000)
   \<and> formatTimestamp (\<lambda>s. None) (\<lambda>t. if t = 1700000000000 then ascii ''milliseconds'' else ascii ''other'')
        (ascii ''1700000000000'') = ascii ''milliseconds''
   \<and> parseInt10 (ascii ''Jan 15, 2024'') = None
   \<and> formatTimestamp (\<lambda>s. Some 1705276800000) (\<lambda>t. if t = 1705276800000 then ascii ''parsed'' else ascii ''other'')
        (ascii ''Jan 15, 2024'') = ascii ''parsed''
   \<and> formatTimestamp (\<lambda>s. None) (\<lambda>t. ascii ''other'') (ascii ''yesterday'') = ascii ''yesterday''
   \<and> (list_all isDigit (ascii ''8640000000000001'') \<and> length (ascii ''8640000000000001'') > 10
      \<and> hd (ascii ''8640000000000001'') \<noteq> 48 \<and> digitsValue (ascii ''8640000000000001'') > 8640000000000000)
   \<and> formatTimestamp (\<lambda>s. None) (\<lambda>t. ascii ''other'') (ascii ''8640000000000001'')
       = ascii ''8640000000000001''"
proof -
  have h5: "list_all isDigit (ascii ''8640000000000001'') \<and> length (ascii ''8640000000000001'') > 10
      \<and> hd (ascii ''8640000000000001'') \<noteq> 48 \<and> digitsValue (ascii ''8640000000000001'') > 8640000000000000"
    by (simp add: ascii_def isDigit_def digitsValue_def)
  have h1: "ascii ''1700000000'' \<noteq> [] \<and> list_all isDigit (ascii ''1700000000'')
      \<and> length (ascii ''1700000000'') \<le> 10"
    by (simp add: ascii_def isDigit_def)
  have v1: "digitsValue (ascii ''1700000000'') = 1700000000"
    by (simp add: digitsValue_def ascii_def)
  have h2: "list_all isDigit (ascii ''1700000000000'') \<and> length (ascii ''1700000000000'') > 10
      \<and> hd (ascii ''1700000000000'') \<noteq> 48 \<and> digitsValue (ascii ''1700000000000'') \<le> 8640000000000000"
    by (simp add: ascii_def isDigit_def digitsValue_def)
  have v2: "digitsValue (ascii ''1700000000000'') = 1700000000000"
    by (simp add: digitsValue_def ascii_def)
  have h3: "parseInt10 (ascii ''Jan 15, 2024'') = None"
    by (simp add: parse_eval)
  have h4: "parseInt10 (ascii ''yesterday'') = None"
    by (simp add: parse_eval)
  note t = formatTimestamp_cases
  from t [of "ascii ''1700000000''" "\<lambda>s. None"
      "\<lambda>t. if t = 1700000000000 then ascii ''seconds'' else ascii ''other''"] h1 v1
  have r1: "formatTimestamp (\<lambda>s. None) (\<lambda>t. if t = 1700000000000 then ascii ''seconds'' else ascii ''other'')
        (ascii ''1700000000'') = ascii ''seconds''"
    by simp
  from t [of "ascii ''1700000000000''" "\<lambda>s. None"
      "\<lambda>t. if t = 1700000000000 then ascii ''milliseconds'' else ascii ''other''"] h2 v2
  have r2: "formatTimestamp (\<lambda>s. None) (\<lambda>t. if t = 1700000000000 then ascii ''milliseconds'' else ascii ''other'')
        (ascii ''1700000000000'') = ascii ''milliseconds''"
    by simp
  from t [of "ascii ''Jan 15, 2024''" "\<lambda>s. Some 1705276800000"
      "\<lambda>t. if t = 1705276800000 then ascii ''parsed'' else ascii ''other''"] h3
  have r3: "formatTimestamp (\<lambda>s. Some 1705276800000) (\<lambda>t. if t = 1705276800000 then ascii ''parsed'' else ascii ''other'')
        (ascii ''Jan 15, 2024'') = ascii ''parsed''"
    by simp
  from t [of "ascii ''yesterday''" "\<lambda>s. None" "\<lambda>t. ascii ''other''"] h4
  have r4: "formatTimestamp (\<lambda>s. None) (\<lambda>t. ascii ''other'') (ascii ''yesterday'') = ascii ''yesterday''"
    by simp
  from t [of "ascii ''8640000000000001''" "\<lambda>s. None" "\<lambda>t. ascii ''other''"] h5
  have r5: "formatTimestamp (\<lambda>s. None) (\<lambda>t. ascii ''other'') (ascii ''8640000000000001'')
       = ascii ''8640000000000001''"
    by simp
  from h1 h2 h3 h5 r1 r2 r3 r4 r5 show ?thesis
    by blast
qed

text \<open>
  Outside the cases above: \<open>parseInt\<close> reads the leading digits of any value, so an ISO
  date string takes the first branch with its year as the number of seconds, although
  the comment on the second branch of the source reserves that branch for ISO date
  strings.
\<close>

lemma formatTimestamp_iso_prefix:
  "parseInt10 (ascii ''2024-01-15T10:30:00Z'') = Some 2024
   \<and> formatTimestamp parseDate toLocaleString (ascii ''2024-01-15T10:30:00Z'')
       = toLocaleString 2024000"
proof -
  have p: "parseInt10 (ascii ''2024-01-15T10:30:00Z'') = Some 2024"
    by (simp add: parse_eval)
  show ?thesis
    by (simp add: p formatTimestamp_number [OF p] validTime_def)
qed

section \<open>The renderer: proofs\<close>

lemma joinBlocks_Cons:
  "joinBlocks (b # bs) = b @ (if bs = [] then [] else separator @ joinBlocks bs)"
  by (cases bs) simp_all

lemma forEach_v1_blocks:
  "n = index + length msgs \<Longrightarrow>
   forEach_v1 n index msgs md =
     md @ joinBlocks (map (messageBlock userIcon_v1 geminiIcon_v1) msgs)"
proof (induction msgs arbitrary: index md)
  case Nil
  show ?case by simp
next
  case (Cons m rest)
  have last: "(int index < int n - 1) = (rest \<noteq> [])"
    using Cons.prems by (cases rest) auto
  have "n = Suc index + length rest"
    using Cons.prems by simp
  note IH = Cons.IH [OF this]
  show ?case
    by (simp add: IH last Let_def messageBlock_def joinBlocks_Cons del: joinBlocks.simps(2,3))
qed

lemma forEach_v2_blocks:
  "n = index + length msgs \<Longrightarrow>
   forEach_v2 n index msgs md =
     md @ joinBlocks (map (\<lambda>m. messageBlock userIcon_v2 geminiIcon_v2 (m\<lparr>timestamp := None\<rparr>)) msgs)"
proof (induction msgs arbitrary: index md)
  case Nil
  show ?case by simp
next
  case (Cons m rest)
  have last: "(int index < int n - 1) = (rest \<noteq> [])"
    using Cons.prems by (cases rest) auto
  have "n = Suc index + length rest"
    using Cons.prems by simp
  note IH = Cons.IH [OF this]
  show ?case
    by (simp add: IH last Let_def messageBlock_def truthy_def joinBlocks_Cons del: joinBlocks.simps(2,3))
qed

lemma documentHead_text:
  "documentHead userIcon geminiIcon date timezone msgs title =
     ascii ''# '' @ title @ [10, 10]
     @ ascii ''*Exported from Gemini on '' @ date @ ascii '' '' @ timezone @ ascii ''*'' @ [10, 10]
     @ ascii ''**Messages:** '' @ decimal (length msgs) @ ascii '' total (''
       @ userIcon @ ascii '' User: '' @ decimal (length (filter (\<lambda>m. role m = User) msgs))
       @ ascii '', '' @ geminiIcon @ ascii '' Gemini: ''
       @ decimal (length (filter (\<lambda>m. role m = Assistant) msgs)) @ ascii '')'' @ [10, 10]
     @ ascii ''---'' @ [10, 10]"
  by (simp add: documentHead_def Let_def newlines_def separator_def ascii_def)

text \<open>
  Claim C8. For every message list and title, \<open>formatAsMarkdown\<close> emits a title line, a
  provenance line with the date/time and the timezone label, a summary line with the
  total and the per-role counts, a rule, and then one block per message: a role header,
  suffixed with the message's timestamp whenever the message has one, a blank line, the
  content, with a \<open>---\<close> rule between consecutive blocks and none after the last
  (\<open>joinBlocks\<close> of the \<open>messageBlock\<close>s). Variant 1 does so for every list. Variant 2
  writes no timestamps; it does so for every list of messages without timestamps, which
  are the only ones its passes create (\<open>variant2_has_no_timestamps\<close> below).
\<close>

theorem formatAsMarkdown_layout:
  "formatAsMarkdown_v1 date timezone msgs title =
     ascii ''# '' @ title @ [10, 10]
     @ ascii ''*Exported from Gemini on '' @ date @ ascii '' '' @ timezone @ ascii ''*'' @ [10, 10]
     @ ascii ''**Messages:** '' @ decimal (length msgs) @ ascii '' total (''
       @ userIcon_v1 @ ascii '' User: '' @ decimal (length (filter (\<lambda>m. role m = User) msgs))
       @ ascii '', '' @ geminiIcon_v1 @ ascii '' Gemini: ''
       @ decimal (length (filter (\<lambda>m. role m = Assistant) msgs)) @ ascii '')'' @ [10, 10]
     @ ascii ''---'' @ [10, 10]
     @ joinBlocks (map (messageBlock userIcon_v1 geminiIcon_v1) msgs)
   \<and> ((\<forall>m \<in> set msgs. \<not> truthy (timestamp m)) \<longrightarrow>
       formatAsMarkdown_v2 date timezone msgs title =
         ascii ''# '' @ title @ [10, 10]
         @ ascii ''*Exported from Gemini on '' @ date @ ascii '' '' @ timezone @ ascii ''*'' @ [10, 10]
         @ ascii ''**Messages:** '' @ decimal (length msgs) @ ascii '' total (''
           @ userIcon_v2 @ ascii '' User: '' @ decimal (length (filter (\<lambda>m. role m = User) msgs))
           @ ascii '', '' @ geminiIcon_v2 @ ascii '' Gemini: ''
           @ decimal (length (filter (\<lambda>m. role m = Assistant) msgs)) @ ascii '')'' @ [10, 10]
         @ ascii ''---'' @ [10, 10]
         @ joinBlocks (map (messageBlock userIcon_v2 geminiIcon_v2) msgs))"
proof (intro conjI impI)
  show "formatAsMarkdown_v1 date timezone msgs title =
     ascii ''# '' @ title @ [10, 10]
     @ ascii ''*Exported from Gemini on '' @ date @ ascii '' '' @ timezone @ ascii ''*'' @ [10, 10]
     @ ascii ''**Messages:** '' @ decimal (length msgs) @ ascii '' total (''
       @ userIcon_v1 @ ascii '' User: '' @ decimal (length (filter (\<lambda>m. role m = User) msgs))
       @ ascii '', '' @ geminiIcon_v1 @ ascii '' Gemini: ''
       @ decimal (length (filter (\<lambda>m. role m = Assistant) msgs)) @ ascii '')'' @ [10, 10]
     @ ascii ''---'' @ [10, 10]
     @ joinBlocks (map (messageBlock userIcon_v1 geminiIcon_v1) msgs)"
    unfolding formatAsMarkdown_v1_def
    by (simp only: forEach_v1_blocks [of "length msgs" 0 msgs, simplified] documentHead_text append_assoc)
next
  assume none: "\<forall>m \<in> set msgs. \<not> truthy (timestamp m)"
  have "messageBlock userIcon_v2 geminiIcon_v2 (m\<lparr>timestamp := None\<rparr>)
          = messageBlock userIcon_v2 geminiIcon_v2 m" if "m \<in> set msgs" for m
    using none that by (simp add: messageBlock_def truthy_def)
  then have same: "map (\<lambda>m. messageBlock userIcon_v2 geminiIcon_v2 (m\<lparr>timestamp := None\<rparr>)) msgs
      = map (messageBlock userIcon_v2 geminiIcon_v2) msgs"
    by simp
  show "formatAsMarkdown_v2 date timezone msgs title =
         ascii ''# '' @ title @ [10, 10]
         @ ascii ''*Exported from Gemini on '' @ date @ ascii '' '' @ timezone @ ascii ''*'' @ [10, 10]
         @ ascii ''**Messages:** '' @ decimal (length msgs) @ ascii '' total (''
           @ userIcon_v2 @ ascii '' User: '' @ decimal (length (filter (\<lambda>m. role m = User) msgs))
           @ ascii '', '' @ geminiIcon_v2 @ ascii '' Gemini: ''
           @ decimal (length (filter (\<lambda>m. role m = Assistant) msgs)) @ ascii '')'' @ [10, 10]
         @ ascii ''---'' @ [10, 10]
         @ joinBlocks (map (messageBlock userIcon_v2 geminiIcon_v2) msgs)"
    unfolding formatAsMarkdown_v2_def
    by (simp only: forEach_v2_blocks [of "length msgs" 0 msgs, simplified] documentHead_text append_assoc same)
qed


lemmas render_eval =
  messageBlock_def roleHeader_def truthy_def newlines_def separator_def ascii_def
  userIcon_v1_def geminiIcon_v1_def userIcon_v2_def geminiIcon_v2_def decimal_digit

theorem formatAsMarkdown_layout_witness:
  "formatAsMarkdown_v1 (ascii ''January 5, 2025 at 10:30 AM'') (ascii ''UTC'')
     [\<lparr>role = User, content = ascii ''Hi'', timestamp = Some (ascii ''10:29'')\<rparr>,
      \<lparr>role = Assistant, content = ascii ''Hello'', timestamp = None\<rparr>] (ascii ''Chat'')
   = ascii ''# Chat'' @ [10, 10]
     @ ascii ''*Exported from Gemini on January 5, 2025 at 10:30 AM UTC*'' @ [10, 10]
     @ ascii ''**Messages:** 2 total ('' @ [55357, 56420] @ ascii '' User: 1, ''
       @ [55358, 56598] @ ascii '' Gemini: 1)'' @ [10, 10]
     @ ascii ''---'' @ [10, 10]
     @ ascii ''## '' @ [55357, 56420] @ ascii '' User '' @ [8212] @ ascii '' *10:29*'' @ [10, 10]
     @ ascii ''Hi'' @ [10, 10]
     @ ascii ''---'' @ [10, 10]
     @ ascii ''## '' @ [55358, 56598] @ ascii '' Gemini'' @ [10, 10]
     @ ascii ''Hello'' @ [10, 10]
   \<and> list_all (\<lambda>m. \<not> truthy (timestamp m))
       [\<lparr>role = User, content = ascii ''Hi'', timestamp = None\<rparr>,
        \<lparr>role = Assistant, content = ascii ''Hello'', timestamp = None\<rparr>]
   \<and> formatAsMarkdown_v2 (ascii ''January 5, 2025 at 10:30 AM'') (ascii ''UTC'')
       [\<lparr>role = User, content = ascii ''Hi'', timestamp = None\<rparr>,
        \<lparr>role = Assistant, content = ascii ''Hello'', timestamp = None\<rparr>] (ascii ''Chat'')
     = ascii ''# Chat'' @ [10, 10]
       @ ascii ''*Exported from Gemini on January 5, 2025 at 10:30 AM UTC*'' @ [10, 10]
       @ ascii ''**Messages:** 2 total ('' @ [240, 376, 8216, 164] @ ascii '' User: 1, ''
         @ [240, 376, 164, 8211] @ ascii '' Gemini: 1)'' @ [10, 10]
       @ ascii ''---'' @ [10, 10]
       @ ascii ''## '' @ [240, 376, 8216, 164] @ ascii '' User'' @ [10, 10]
       @ ascii ''Hi'' @ [10, 10]
       @ ascii ''---'' @ [10, 10]
       @ ascii ''## '' @ [240, 376, 164, 8211] @ ascii '' Gemini'' @ [10, 10]
       @ ascii ''Hello'' @ [10, 10]"
  (is "?A \<and> ?H \<and> ?B")
proof -
  have h: ?H
    by (simp add: truthy_def)
  have a: ?A
    using formatAsMarkdown_layout
      [of "ascii ''January 5, 2025 at 10:30 AM''" "ascii ''UTC''"
          "[\<lparr>role = User, content = ascii ''Hi'', timestamp = Some (ascii ''10:29'')\<rparr>,
            \<lparr>role = Assistant, content = ascii ''Hello'', timestamp = None\<rparr>]" "ascii ''Chat''"]
    by (simp add: render_eval)
  have b: ?B
    using formatAsMarkdown_layout
      [of "ascii ''January 5, 2025 at 10:30 AM''" "ascii ''UTC''"
          "[\<lparr>role = User, content = ascii ''Hi'', timestamp = None\<rparr>,
            \<lparr>role = Assistant, content = ascii ''Hello'', timestamp = None\<rparr>]" "ascii ''Chat''"]
    by (simp add: render_eval)
  from a h b show ?thesis
    by blast
qed

section \<open>The invariant of the Accumulator: proofs\<close>

lemma dropWhile_keeps: "xs = [] \<or> \<not> P (hd xs) \<Longrightarrow> dropWhile P xs = xs"
  by (cases xs) auto

lemma last_dropWhile: "dropWhile P xs \<noteq> [] \<Longrightarrow> last (dropWhile P xs) = last xs"
  by (induction xs) (auto split: if_splits)

lemma trim_ends:
  "trim s = [] \<or> (\<not> isWhiteSpace (hd (trim s)) \<and> \<not> isWhiteSpace (last (trim s)))"
proof (cases "trim s = []")
  case True
  then show ?thesis by simp
next
  case False
  define a where "a = dropWhile isWhiteSpace s"
  define b where "b = dropWhile isWhiteSpace (rev a)"
  have t: "trim s = rev b"
    by (simp add: trim_def trimStart_def trimEnd_def a_def b_def)
  with False have b: "b \<noteq> []"
    by simp
  then have "\<not> isWhiteSpace (hd b)"
    unfolding b_def by (rule hd_dropWhile)
  then have l: "\<not> isWhiteSpace (last (trim s))"
    using b by (simp add: t last_rev)
  have "rev a \<noteq> []"
    using b unfolding b_def by auto
  then have a: "a \<noteq> []"
    by simp
  have "last b = last (rev a)"
    using b unfolding b_def by (rule last_dropWhile)
  also have "\<dots> = hd a"
    using a by (simp add: last_rev)
  finally have "hd (trim s) = hd a"
    using b by (simp add: t hd_rev)
  moreover have "\<not> isWhiteSpace (hd a)"
    using a unfolding a_def by (rule hd_dropWhile)
  ultimately show ?thesis
    using l by simp
qed

lemma trim_fixed:
  assumes "s = [] \<or> (\<not> isWhiteSpace (hd s) \<and> \<not> isWhiteSpace (last s))"
  shows "trim s = s"
proof -
  have 1: "dropWhile isWhiteSpace s = s"
    using assms by (intro dropWhile_keeps) auto
  have 2: "dropWhile isWhiteSpace (rev s) = rev s"
    using assms by (intro dropWhile_keeps) (auto simp: hd_rev)
  show ?thesis
    by (simp add: trim_def trimStart_def trimEnd_def 1 2)
qed

lemma trim_idem: "trim (trim s) = trim s"
  by (rule trim_fixed) (rule trim_ends)

text \<open>The invariant carried through the passes: distinct fingerprints, all of them seen.\<close>

lemma hash_of_extracted:
  "hashContent (trim (extractMessageContent el)) = hashContent (extractMessageContent el)"
  by (simp add: extractMessageContent_def trim_idem)

lemma extractFromTurn_inv: "accumulatorInvariant acc \<Longrightarrow> accumulatorInvariant (extractFromTurn t acc)"
  unfolding extractFromTurn_def accumulatorInvariant_def
  by (auto simp: Let_def hash_of_extracted split: option.splits)

lemma processCandidate_inv:
  "accumulatorInvariant acc \<Longrightarrow> processCandidate el acc = Inr acc'
    \<Longrightarrow> accumulatorInvariant acc'"
  unfolding processCandidate_def accumulatorInvariant_def
  by (auto simp: Let_def hash_of_extracted image_subset_iff split: sum.splits if_splits)

lemma extractFromMainContent_inv:
  "accumulatorInvariant acc \<Longrightarrow> accumulatorInvariant (fst (extractFromMainContent els acc))"
  by (induction els arbitrary: acc) (auto split: sum.splits dest: processCandidate_inv)

lemma foldl_inv:
  "(\<And>a x. P a \<Longrightarrow> P (f a x)) \<Longrightarrow> P a \<Longrightarrow> P (foldl f a xs)"
  by (induction xs arbitrary: a) simp_all

lemma extractVisibleMessages_v1_inv:
  "accumulatorInvariant acc \<Longrightarrow> accumulatorInvariant (fst (extractVisibleMessages_v1 doc acc))"
  unfolding extractVisibleMessages_v1_def
  by (auto split: option.splits intro!: foldl_inv [where P = accumulatorInvariant]
      simp: extractFromTurn_inv extractFromMainContent_inv)

lemma processCandidate_string:
  "className el \<noteq> SVGAnimatedString \<Longrightarrow> \<exists>acc'. processCandidate el acc = Inr acc'"
  by (cases "className el")
    (auto simp: processCandidate_def determineMessageRole_def Let_def)

lemma extractFromMainContent_string:
  "list_all (\<lambda>el. className el \<noteq> SVGAnimatedString) els
    \<Longrightarrow> snd (extractFromMainContent els acc) = None"
proof (induction els arbitrary: acc)
  case Nil
  show ?case by simp
next
  case (Cons el els)
  then obtain acc' where "processCandidate el acc = Inr acc'"
    using processCandidate_string [of el acc] by auto
  with Cons show ?case
    by simp
qed

lemma extractVisibleMessages_v1_string:
  "stringClassNames doc \<Longrightarrow> snd (extractVisibleMessages_v1 doc acc) = None"
  by (auto simp: extractVisibleMessages_v1_def stringClassNames_def
      extractFromMainContent_string split: option.splits)

lemma visitElement_inv: "newMessagesInvariant seen0 st \<Longrightarrow> newMessagesInvariant seen0 (visitElement el st)"
  unfolding visitElement_def newMessagesInvariant_def
  by (auto simp: Let_def hash_of_extracted)

lemma extractVisibleMessages_v2_inv:
  assumes "accumulatorInvariant acc"
  shows "accumulatorInvariant (extractVisibleMessages_v2 prepend els acc)"
proof -
  define st where "st = foldl (\<lambda>st el. visitElement el st) ([], seenContent acc) els"
  have "newMessagesInvariant (seenContent acc) ([], seenContent acc)"
    by (simp add: newMessagesInvariant_def)
  then have "newMessagesInvariant (seenContent acc) st"
    unfolding st_def by (rule foldl_inv [rotated]) (rule visitElement_inv)
  then show ?thesis
    using assms unfolding extractVisibleMessages_v2_def accumulatorInvariant_def newMessagesInvariant_def st_def [symmetric]
    by (auto simp: Let_def)
qed

lemma accumulatorInvariant_empty: "accumulatorInvariant emptyAccumulator"
  by (simp add: accumulatorInvariant_def emptyAccumulator_def)


section \<open>The scroll driver: proofs\<close>

text \<open>
  The scroll step is computed in doubles: \<open>Math.floor(650 * 0.7)\<close> is 454, not 455,
  because the double nearest to 0.7 is below it.
\<close>

lemma bitLength_zero: "bitLength 0 = 0"
  by (simp add: bitLength.simps)

lemma bitLength_pos: "0 < n \<Longrightarrow> bitLength n = Suc (bitLength (n div 2))"
  by (subst bitLength.simps) simp

lemma floorOfProduct_examples:
  "floorOfProduct sevenTenths 650 = 454"
  "floorOfProduct sevenTenths 10 = 7"
  "floorOfProduct nineTenths 800 = 720"
  "floorOfProduct nineTenths 10 = 9"
  "floorOfProduct sevenTenths (- 3) = - 3"
  by (simp_all add: floorOfProduct_def sevenTenths_def nineTenths_def Let_def
      bitLength_zero bitLength_pos)

lemma adaptiveWait_done:
  "\<not> k < cap \<Longrightarrow> adaptiveWait ops pass ms cap k h v acc = (h, v, acc)"
  by (subst adaptiveWait.simps) simp

lemma adaptiveWait_step:
  "k < cap \<Longrightarrow>
   adaptiveWait ops pass ms cap k h v acc =
     (if getScrollHeight ops (sleep ops ms v) = h
      then (h, sleep ops ms v, pass (queryDocument ops (sleep ops ms v)) acc)
      else adaptiveWait ops pass ms cap (Suc k) (getScrollHeight ops (sleep ops ms v))
             (sleep ops ms v) (pass (queryDocument ops (sleep ops ms v)) acc))"
  by (subst adaptiveWait.simps) (simp add: Let_def)

lemma adaptiveWait_inv:
  assumes "P acc" and step: "\<And>v a. P a \<Longrightarrow> P (pass (queryDocument ops v) a)"
  shows "P (snd (snd (adaptiveWait ops pass ms cap k h v acc)))"
  using assms(1)
proof (induction "cap - k" arbitrary: k h v acc)
  case 0
  then show ?case
    by (simp add: adaptiveWait_done)
next
  case (Suc n)
  from Suc.hyps(2) have n: "n = cap - Suc k" and lt: "k < cap"
    by simp_all
  have p: "P (pass (queryDocument ops (sleep ops ms v)) acc)"
    using Suc.prems by (rule step)
  show ?case
    unfolding adaptiveWait_step [OF lt]
    using Suc.hyps(1) [OF n p] p by simp
qed

lemma advance_collected:
  "snd (snd (snd (advance ops pass ms cap scrollStep stuckCount v acc))) =
     snd (snd (adaptiveWait ops pass ms cap 0
       (getScrollHeight ops (sleep ops 50 (scrollBy ops (- scrollStep) v)))
       (sleep ops 50 (scrollBy ops (- scrollStep) v))
       (pass (queryDocument ops (sleep ops 50 (scrollBy ops (- scrollStep) v))) acc)))"
  by (simp add: advance_def Let_def)

lemma advance_inv:
  assumes "P acc" and step: "\<And>v a. P a \<Longrightarrow> P (pass (queryDocument ops v) a)"
  shows "P (snd (snd (snd (advance ops pass ms cap scrollStep stuckCount v acc))))"
proof -
  have "P (pass (queryDocument ops (sleep ops 50 (scrollBy ops (- scrollStep) v))) acc)"
    using assms(1) by (rule step)
  then show ?thesis
    unfolding advance_collected
    by (rule adaptiveWait_inv [where P = P and pass = pass and ops = ops]) (rule step)
qed

lemma scrollLoop_done:
  "\<not> scrollCount < maxScrolls \<Longrightarrow>
   scrollLoop ops pass ms cap scrollStep scrollCount stuckCount made v acc =
     \<lparr>loopExit = StepCap, advances = made, page = v, collected = acc\<rparr>"
  by (subst scrollLoop.simps) simp

lemma scrollLoop_step:
  "scrollCount < maxScrolls \<Longrightarrow>
   advance ops pass ms cap scrollStep stuckCount v acc = (outc, stuckCount', v', acc') \<Longrightarrow>
   scrollLoop ops pass ms cap scrollStep scrollCount stuckCount made v acc =
     (if outc = BreakStuck
      then \<lparr>loopExit = StuckDetected, advances = Suc made, page = v', collected = acc'\<rparr>
      else if outc = BreakAtTop
      then \<lparr>loopExit = ReachedTop, advances = Suc made, page = v', collected = acc'\<rparr>
      else scrollLoop ops pass ms cap scrollStep (Suc scrollCount) stuckCount' (Suc made) v' acc')"
  by (subst scrollLoop.simps) (simp add: Let_def)

lemma scrollLoop_inv:
  assumes "P acc" and step: "\<And>v a. P a \<Longrightarrow> P (pass (queryDocument ops v) a)"
  shows "P (collected (scrollLoop ops pass ms cap scrollStep scrollCount stuckCount made v acc))"
  using assms(1)
proof (induction "maxScrolls - scrollCount" arbitrary: scrollCount stuckCount made v acc)
  case 0
  then show ?case
    by (simp add: scrollLoop_done)
next
  case (Suc n)
  from Suc.hyps(2) have n: "n = maxScrolls - Suc scrollCount" and lt: "scrollCount < maxScrolls"
    by simp_all
  obtain outc stuckCount' v' acc'
    where a: "advance ops pass ms cap scrollStep stuckCount v acc = (outc, stuckCount', v', acc')"
    by (cases "advance ops pass ms cap scrollStep stuckCount v acc") auto
  have "P (snd (snd (snd (advance ops pass ms cap scrollStep stuckCount v acc))))"
    using Suc.prems by (rule advance_inv [where P = P and pass = pass and ops = ops]) (rule step)
  then have p: "P acc'"
    by (simp add: a)
  show ?case
    unfolding scrollLoop_step [OF lt a]
    using Suc.hyps(1) [OF n p] p by simp
qed

lemma adaptiveWait_v1_done:
  "\<not> k < 3 \<Longrightarrow> adaptiveWait_v1 ops k h v acc = ((h, v, acc), None)"
  by (subst adaptiveWait_v1.simps) simp

lemma adaptiveWait_v1_step:
  "k < 3 \<Longrightarrow>
   adaptiveWait_v1 ops k h v acc =
     (case snd (extractVisibleMessages_v1 (queryDocument ops (sleep ops 50 v)) acc) of
        Some e \<Rightarrow>
          ((h, sleep ops 50 v,
            fst (extractVisibleMessages_v1 (queryDocument ops (sleep ops 50 v)) acc)), Some e)
      | None \<Rightarrow>
          if getScrollHeight ops (sleep ops 50 v) = h
          then ((h, sleep ops 50 v,
                 fst (extractVisibleMessages_v1 (queryDocument ops (sleep ops 50 v)) acc)), None)
          else adaptiveWait_v1 ops (Suc k) (getScrollHeight ops (sleep ops 50 v)) (sleep ops 50 v)
                 (fst (extractVisibleMessages_v1 (queryDocument ops (sleep ops 50 v)) acc)))"
  by (subst adaptiveWait_v1.simps) (simp add: Let_def split: option.splits)

text \<open>
  A property \<open>P\<close> of the accumulator that every pass keeps, and a property \<open>N\<close> of
  what every pass throws, hold of what the traversal of variant 1 leaves and throws.
\<close>

lemma adaptiveWait_v1_inv:
  assumes "P acc" and none: "N None"
    and step: "\<And>v a. P a \<Longrightarrow>
      P (fst (extractVisibleMessages_v1 (queryDocument ops v) a))
      \<and> N (snd (extractVisibleMessages_v1 (queryDocument ops v) a))"
  shows "P (snd (snd (fst (adaptiveWait_v1 ops k h v acc))))
    \<and> N (snd (adaptiveWait_v1 ops k h v acc))"
  using assms(1)
proof (induction "3 - k" arbitrary: k h v acc)
  case 0
  then show ?case
    using none by (simp add: adaptiveWait_v1_done)
next
  case (Suc n)
  from Suc.hyps(2) have n: "n = 3 - Suc k" and lt: "k < 3"
    by simp_all
  define r where "r = extractVisibleMessages_v1 (queryDocument ops (sleep ops 50 v)) acc"
  have p: "P (fst r) \<and> N (snd r)"
    unfolding r_def using Suc.prems by (rule step)
  then have ih: "P (snd (snd (fst (adaptiveWait_v1 ops (Suc k) h' v' (fst r)))))
      \<and> N (snd (adaptiveWait_v1 ops (Suc k) h' v' (fst r)))" for h' v'
    using Suc.hyps(1) [OF n] by simp
  show ?case
    unfolding adaptiveWait_v1_step [OF lt] r_def [symmetric]
    using ih p by (auto split: option.splits)
qed

lemma advance_v1_inv:
  assumes "P acc" and none: "N None"
    and step: "\<And>v a. P a \<Longrightarrow>
      P (fst (extractVisibleMessages_v1 (queryDocument ops v) a))
      \<and> N (snd (extractVisibleMessages_v1 (queryDocument ops v) a))"
  shows "P (snd (snd (snd (advance_v1 ops scrollStep stuckCount v acc))))
    \<and> (\<forall>e. fst (advance_v1 ops scrollStep stuckCount v acc) = Inl e \<longrightarrow> N (Some e))"
proof -
  define va where "va = sleep ops 50 (scrollBy ops (- scrollStep) v)"
  define r where "r = extractVisibleMessages_v1 (queryDocument ops va) acc"
  define w where "w = adaptiveWait_v1 ops 0 (getScrollHeight ops va) va (fst r)"
  have p: "P (fst r) \<and> N (snd r)"
    unfolding r_def using assms(1) by (rule step)
  then have "P (fst r)"
    by simp
  then have q: "P (snd (snd (fst w))) \<and> N (snd w)"
    unfolding w_def using none step by (rule adaptiveWait_v1_inv)
  show ?thesis
    unfolding advance_v1_def Let_def va_def [symmetric] r_def [symmetric] w_def [symmetric]
    using p q by (auto split: option.splits)
qed

lemma scrollLoop_v1_done:
  "\<not> scrollCount < maxScrolls \<Longrightarrow>
   scrollLoop_v1 ops scrollStep scrollCount stuckCount made v acc =
     \<lparr>loopExit = StepCap, advances = made, page = v, collected = acc, thrown = None\<rparr>"
  by (subst scrollLoop_v1.simps) simp

lemma scrollLoop_v1_step:
  "scrollCount < maxScrolls \<Longrightarrow>
   advance_v1 ops scrollStep stuckCount v acc = (sig, stuckCount', v', acc') \<Longrightarrow>
   scrollLoop_v1 ops scrollStep scrollCount stuckCount made v acc =
     (case sig of
        Inl e \<Rightarrow>
          \<lparr>loopExit = Interrupted, advances = Suc made, page = v', collected = acc',
           thrown = Some e\<rparr>
      | Inr outc \<Rightarrow>
          if outc = BreakStuck
          then \<lparr>loopExit = StuckDetected, advances = Suc made, page = v', collected = acc',
                thrown = None\<rparr>
          else if outc = BreakAtTop
          then \<lparr>loopExit = ReachedTop, advances = Suc made, page = v', collected = acc',
                thrown = None\<rparr>
          else scrollLoop_v1 ops scrollStep (Suc scrollCount) stuckCount' (Suc made) v' acc')"
  by (subst scrollLoop_v1.simps) (simp add: Let_def split: sum.splits)

lemma scrollLoop_v1_inv:
  assumes "P acc" and none: "N None"
    and step: "\<And>v a. P a \<Longrightarrow>
      P (fst (extractVisibleMessages_v1 (queryDocument ops v) a))
      \<and> N (snd (extractVisibleMessages_v1 (queryDocument ops v) a))"
  shows "P (collected (scrollLoop_v1 ops scrollStep scrollCount stuckCount made v acc))
    \<and> N (thrown (scrollLoop_v1 ops scrollStep scrollCount stuckCount made v acc))"
  using assms(1)
proof (induction "maxScrolls - scrollCount" arbitrary: scrollCount stuckCount made v acc)
  case 0
  then show ?case
    using none by (simp add: scrollLoop_v1_done)
next
  case (Suc n)
  from Suc.hyps(2) have n: "n = maxScrolls - Suc scrollCount" and lt: "scrollCount < maxScrolls"
    by simp_all
  obtain sig stuckCount' v' acc'
    where a: "advance_v1 ops scrollStep stuckCount v acc = (sig, stuckCount', v', acc')"
    by (cases "advance_v1 ops scrollStep stuckCount v acc") auto
  have "P (snd (snd (snd (advance_v1 ops scrollStep stuckCount v acc))))
    \<and> (\<forall>e. fst (advance_v1 ops scrollStep stuckCount v acc) = Inl e \<longrightarrow> N (Some e))"
    using Suc.prems none step by (rule advance_v1_inv)
  then have p: "P acc'" and t: "\<And>e. sig = Inl e \<Longrightarrow> N (Some e)"
    by (simp_all add: a)
  show ?case
    unfolding scrollLoop_v1_step [OF lt a]
    using Suc.hyps(1) [OF n p] p t none by (auto split: sum.splits)
qed

lemma autoScrollConversation_v1_inv:
  assumes "P acc" and none: "N None"
    and step: "\<And>v a. P a \<Longrightarrow>
      P (fst (extractVisibleMessages_v1 (queryDocument ops v) a))
      \<and> N (snd (extractVisibleMessages_v1 (queryDocument ops v) a))"
  shows "P (collected (autoScrollConversation_v1 ops v acc))
    \<and> N (thrown (autoScrollConversation_v1 ops v acc))"
proof -
  define r where "r = extractVisibleMessages_v1 (queryDocument ops v) acc"
  define t where "t = scrollLoop_v1 ops
      (max 500 (floorOfProduct nineTenths (getClientHeight ops v))) 0 0 0 v (fst r)"
  define r' where "r' = extractVisibleMessages_v1 (queryDocument ops (page t)) (collected t)"
  have p: "P (fst r) \<and> N (snd r)"
    unfolding r_def using assms(1) by (rule step)
  then have "P (fst r)"
    by simp
  then have q: "P (collected t) \<and> N (thrown t)"
    unfolding t_def using none step by (rule scrollLoop_v1_inv)
  then have "P (collected t)"
    by simp
  then have q': "P (fst r') \<and> N (snd r')"
    unfolding r'_def by (rule step)
  show ?thesis
    unfolding autoScrollConversation_v1_def Let_def r_def [symmetric] t_def [symmetric]
      r'_def [symmetric]
    using p q q' by (auto split: option.splits)
qed

lemma autoScrollConversation_v2_inv:
  assumes acc: "P acc"
    and step: "\<And>v a b. P a \<Longrightarrow> P (extractVisibleMessages_v2 b (queryDocument ops v) a)"
  shows "P (collected (autoScrollConversation_v2 ops v acc))"
proof -
  define va where "va = sleep ops 200 (setScrollTop ops (getScrollHeight ops v) v)"
  define a1 where "a1 = extractVisibleMessages_v2 False (queryDocument ops va) acc"
  define vb where "vb = sleep ops 100 va"
  define a2 where "a2 = extractVisibleMessages_v2 False (queryDocument ops vb) a1"
  define t where "t = scrollLoop ops (extractVisibleMessages_v2 True) 75 5
      (max 400 (floorOfProduct sevenTenths (getClientHeight ops vb))) 0 0 0 vb a2"
  define a3 where "a3 = extractVisibleMessages_v2 True (queryDocument ops (page t)) (collected t)"
  define vc where "vc = sleep ops 300 (setScrollTop ops 0 (page t))"
  define a4 where "a4 = extractVisibleMessages_v2 True (queryDocument ops vc) a3"
  define vd where "vd = sleep ops 200 vc"
  define a5 where "a5 = extractVisibleMessages_v2 True (queryDocument ops vd) a4"
  define ve where "ve = sleep ops 200 (setScrollTop ops 0 vd)"
  define a6 where "a6 = extractVisibleMessages_v2 True (queryDocument ops ve) a5"
  have r: "autoScrollConversation_v2 ops v acc = t\<lparr>page := ve, collected := a6\<rparr>"
    unfolding autoScrollConversation_v2_def Let_def a6_def ve_def a5_def vd_def a4_def vc_def
      a3_def t_def a2_def vb_def a1_def va_def ..
  have "P a1"
    unfolding a1_def using acc by (rule step)
  then have "P a2"
    unfolding a2_def by (rule step)
  then have "P (collected t)"
    unfolding t_def
    by (rule scrollLoop_inv [where P = P and pass = "extractVisibleMessages_v2 True" and ops = ops])
      (rule step)
  then have "P a3"
    unfolding a3_def by (rule step)
  then have "P a4"
    unfolding a4_def by (rule step)
  then have "P a5"
    unfolding a5_def by (rule step)
  then have "P a6"
    unfolding a6_def by (rule step)
  then show ?thesis
    by (simp add: r)
qed

text \<open>
  Claim C4. At any point of the incremental loading no two entries of the Accumulator
  share a fingerprint. Every push is guarded by the membership test on the Seen-Set, and
  the content pushed is already trimmed, so its fingerprint is the one tested. Hence
  after any sequence of extraction passes over any documents, starting from the empty
  Accumulator, the fingerprints of the accumulated contents are pairwise distinct, in
  both variants; and so they are in what \<open>autoScrollConversation\<close> leaves, for every
  view. In variant 1 this holds of the accumulator a pass or the traversal leaves whether
  or not it threw.
\<close>

theorem accumulator_fingerprints_distinct:
  "fingerprintsDistinct
     (foldl (\<lambda>acc doc. fst (extractVisibleMessages_v1 doc acc)) emptyAccumulator docs)
   \<and> fingerprintsDistinct
       (foldl (\<lambda>acc p. extractVisibleMessages_v2 (fst p) (snd p) acc) emptyAccumulator passes)
   \<and> fingerprintsDistinct (collected (autoScrollConversation_v1 ops1 v1 emptyAccumulator))
   \<and> fingerprintsDistinct (collected (autoScrollConversation_v2 ops2 v2 emptyAccumulator))"
proof -
  have d: "fingerprintsDistinct acc" if "accumulatorInvariant acc" for acc
    using that by (simp add: fingerprintsDistinct_def accumulatorInvariant_def)
  have "accumulatorInvariant
      (foldl (\<lambda>acc doc. fst (extractVisibleMessages_v1 doc acc)) emptyAccumulator docs)"
    by (rule foldl_inv) (simp_all add: extractVisibleMessages_v1_inv accumulatorInvariant_empty)
  moreover have "accumulatorInvariant
       (foldl (\<lambda>acc p. extractVisibleMessages_v2 (fst p) (snd p) acc) emptyAccumulator passes)"
    by (rule foldl_inv) (simp_all add: extractVisibleMessages_v2_inv accumulatorInvariant_empty)
  moreover have "accumulatorInvariant (collected (autoScrollConversation_v1 ops1 v1 emptyAccumulator))"
    using autoScrollConversation_v1_inv
      [of accumulatorInvariant emptyAccumulator "\<lambda>x. True" ops1 v1]
    by (simp add: accumulatorInvariant_empty extractVisibleMessages_v1_inv)
  moreover have "accumulatorInvariant (collected (autoScrollConversation_v2 ops2 v2 emptyAccumulator))"
    using accumulatorInvariant_empty
    by (rule autoScrollConversation_v2_inv) (rule extractVisibleMessages_v2_inv)
  ultimately show ?thesis
    by (simp add: d)
qed

lemma scrollLoop_advances_le:
  "advances (scrollLoop ops pass ms cap scrollStep scrollCount stuckCount made v acc)
     \<le> made + (maxScrolls - scrollCount)"
proof (induction "maxScrolls - scrollCount" arbitrary: scrollCount stuckCount made v acc)
  case 0
  then show ?case
    by (simp add: scrollLoop_done)
next
  case (Suc n)
  from Suc.hyps(2) have n: "n = maxScrolls - Suc scrollCount" and lt: "scrollCount < maxScrolls"
    by simp_all
  obtain outc stuckCount' v' acc'
    where a: "advance ops pass ms cap scrollStep stuckCount v acc = (outc, stuckCount', v', acc')"
    by (cases "advance ops pass ms cap scrollStep stuckCount v acc") auto
  have ih: "advances (scrollLoop ops pass ms cap scrollStep (Suc scrollCount) stuckCount'
      (Suc made) v' acc') \<le> Suc made + (maxScrolls - Suc scrollCount)"
    by (rule Suc.hyps(1) [OF n])
  have e: "Suc made + (maxScrolls - Suc scrollCount) = made + (maxScrolls - scrollCount)"
    using lt by simp
  have b: "Suc made \<le> made + (maxScrolls - scrollCount)"
    using lt by arith
  show ?case
  proof (cases "outc = BreakStuck \<or> outc = BreakAtTop")
    case True
    then have "advances (scrollLoop ops pass ms cap scrollStep scrollCount stuckCount made v acc)
        = Suc made"
      unfolding scrollLoop_step [OF lt a] by auto
    with b show ?thesis
      by (simp only:)
  next
    case False
    then have "scrollLoop ops pass ms cap scrollStep scrollCount stuckCount made v acc
        = scrollLoop ops pass ms cap scrollStep (Suc scrollCount) stuckCount' (Suc made) v' acc'"
      unfolding scrollLoop_step [OF lt a] by auto
    with ih e show ?thesis
      by (simp only:)
  qed
qed

lemma scrollLoop_v1_advances_le:
  "advances (scrollLoop_v1 ops scrollStep scrollCount stuckCount made v acc)
     \<le> made + (maxScrolls - scrollCount)"
proof (induction "maxScrolls - scrollCount" arbitrary: scrollCount stuckCount made v acc)
  case 0
  then show ?case
    by (simp add: scrollLoop_v1_done)
next
  case (Suc n)
  from Suc.hyps(2) have n: "n = maxScrolls - Suc scrollCount" and lt: "scrollCount < maxScrolls"
    by simp_all
  obtain sig stuckCount' v' acc'
    where a: "advance_v1 ops scrollStep stuckCount v acc = (sig, stuckCount', v', acc')"
    by (cases "advance_v1 ops scrollStep stuckCount v acc") auto
  have ih: "advances (scrollLoop_v1 ops scrollStep (Suc scrollCount) stuckCount'
      (Suc made) v' acc') \<le> Suc made + (maxScrolls - Suc scrollCount)"
    by (rule Suc.hyps(1) [OF n])
  have e: "Suc made + (maxScrolls - Suc scrollCount) = made + (maxScrolls - scrollCount)"
    using lt by simp
  have b: "Suc made \<le> made + (maxScrolls - scrollCount)"
    using lt by arith
  show ?case
  proof (cases "sig = Inr Continue")
    case False
    then have "advances (scrollLoop_v1 ops scrollStep scrollCount stuckCount made v acc)
        = Suc made"
      unfolding scrollLoop_v1_step [OF lt a]
      by (cases sig) (auto, metis outcome.exhaust)
    with b show ?thesis
      by (simp only:)
  next
    case True
    then have "scrollLoop_v1 ops scrollStep scrollCount stuckCount made v acc
        = scrollLoop_v1 ops scrollStep (Suc scrollCount) stuckCount' (Suc made) v' acc'"
      unfolding scrollLoop_v1_step [OF lt a] by simp
    with ih e show ?thesis
      by (simp only:)
  qed
qed

text \<open>The loop of variant 1 is left as \<open>Interrupted\<close> exactly when a pass threw.\<close>

lemma scrollLoop_v1_interrupted:
  "(loopExit (scrollLoop_v1 ops scrollStep scrollCount stuckCount made v acc) = Interrupted)
     = (thrown (scrollLoop_v1 ops scrollStep scrollCount stuckCount made v acc) \<noteq> None)"
proof (induction "maxScrolls - scrollCount" arbitrary: scrollCount stuckCount made v acc)
  case 0
  then show ?case
    by (simp add: scrollLoop_v1_done)
next
  case (Suc n)
  from Suc.hyps(2) have n: "n = maxScrolls - Suc scrollCount" and lt: "scrollCount < maxScrolls"
    by simp_all
  obtain sig stuckCount' v' acc'
    where a: "advance_v1 ops scrollStep stuckCount v acc = (sig, stuckCount', v', acc')"
    by (cases "advance_v1 ops scrollStep stuckCount v acc") auto
  show ?case
    unfolding scrollLoop_v1_step [OF lt a]
    using Suc.hyps(1) [OF n, of stuckCount' "Suc made" v' acc']
    by (cases sig) auto
qed

lemma autoScrollConversation_v1_loop:
  "snd (extractVisibleMessages_v1 (queryDocument ops v) acc) = None \<Longrightarrow>
   loopExit (autoScrollConversation_v1 ops v acc) =
     loopExit (scrollLoop_v1 ops
       (max 500 (floorOfProduct nineTenths (getClientHeight ops v))) 0 0 0 v
       (fst (extractVisibleMessages_v1 (queryDocument ops v) acc)))
   \<and> advances (autoScrollConversation_v1 ops v acc) =
     advances (scrollLoop_v1 ops
       (max 500 (floorOfProduct nineTenths (getClientHeight ops v))) 0 0 0 v
       (fst (extractVisibleMessages_v1 (queryDocument ops v) acc)))"
  by (simp add: autoScrollConversation_v1_def Let_def split: option.splits)

lemma autoScrollConversation_v1_first_throw:
  "snd (extractVisibleMessages_v1 (queryDocument ops v) acc) = Some e \<Longrightarrow>
   autoScrollConversation_v1 ops v acc =
     \<lparr>loopExit = Interrupted, advances = 0, page = v,
      collected = fst (extractVisibleMessages_v1 (queryDocument ops v) acc), thrown = Some e\<rparr>"
  by (simp add: autoScrollConversation_v1_def Let_def)

lemma autoScrollConversation_v1_interrupted:
  "loopExit (autoScrollConversation_v1 ops v acc) = Interrupted
    \<Longrightarrow> thrown (autoScrollConversation_v1 ops v acc) \<noteq> None"
proof (cases "snd (extractVisibleMessages_v1 (queryDocument ops v) acc)")
  case (Some e)
  then show ?thesis
    by (simp add: autoScrollConversation_v1_first_throw)
next
  case None
  assume i: "loopExit (autoScrollConversation_v1 ops v acc) = Interrupted"
  define t where "t = scrollLoop_v1 ops
      (max 500 (floorOfProduct nineTenths (getClientHeight ops v))) 0 0 0 v
      (fst (extractVisibleMessages_v1 (queryDocument ops v) acc))"
  from i have "loopExit t = Interrupted"
    unfolding t_def using autoScrollConversation_v1_loop [OF None] by simp
  then have "thrown t \<noteq> None"
    unfolding t_def by (simp add: scrollLoop_v1_interrupted)
  then show ?thesis
    using None
    unfolding autoScrollConversation_v1_def Let_def t_def [symmetric]
    by (auto split: option.splits)
qed

lemma autoScrollConversation_v1_no_throw:
  assumes "\<forall>v. stringClassNames (queryDocument ops v)"
  shows "thrown (autoScrollConversation_v1 ops v acc) = None"
proof -
  have "True \<and> thrown (autoScrollConversation_v1 ops v acc) = None"
    using autoScrollConversation_v1_inv
      [of "\<lambda>a. True" acc "\<lambda>x. x = None" ops v]
    by (simp add: assms extractVisibleMessages_v1_string)
  then show ?thesis
    by simp
qed

lemma autoScrollConversation_v2_loop:
  "\<exists>scrollStep acc'.
     loopExit (autoScrollConversation_v2 ops v acc) =
       loopExit (scrollLoop ops (extractVisibleMessages_v2 True) 75 5 scrollStep 0 0 0
         (sleep ops 100 (sleep ops 200 (setScrollTop ops (getScrollHeight ops v) v))) acc')
     \<and> advances (autoScrollConversation_v2 ops v acc) =
       advances (scrollLoop ops (extractVisibleMessages_v2 True) 75 5 scrollStep 0 0 0
         (sleep ops 100 (sleep ops 200 (setScrollTop ops (getScrollHeight ops v) v))) acc')"
  by (simp add: autoScrollConversation_v2_def Let_def) blast

lemma adaptiveWait_stuck:
  assumes top: "positionStuck ops" and hg: "heightNeverGrows ops"
  shows "h = getScrollHeight ops v \<Longrightarrow>
    fst (adaptiveWait ops pass ms cap k h v acc) \<le> h
    \<and> getScrollTop ops (fst (snd (adaptiveWait ops pass ms cap k h v acc))) = getScrollTop ops v"
proof (induction "cap - k" arbitrary: k h v acc)
  case 0
  then show ?case
    by (simp add: adaptiveWait_done)
next
  case (Suc n)
  from Suc.hyps(2) have n: "n = cap - Suc k" and lt: "k < cap"
    by simp_all
  have t: "getScrollTop ops (sleep ops ms v) = getScrollTop ops v"
    using top by (simp add: positionStuck_def)
  have g: "getScrollHeight ops (sleep ops ms v) \<le> h"
    using hg Suc.prems by (simp add: heightNeverGrows_def)
  show ?case
    unfolding adaptiveWait_step [OF lt]
    using Suc.hyps(1) [OF n refl, of "sleep ops ms v" "pass (queryDocument ops (sleep ops ms v)) acc"] t g
    by auto
qed

lemma advance_stuck:
  assumes top: "positionStuck ops" and hg: "heightNeverGrows ops"
  shows "\<exists>v' acc'.
    advance ops pass ms cap scrollStep stuckCount v acc =
      ((if stuckCount + 1 \<ge> 3 then BreakStuck
        else if getScrollTop ops v \<le> 10 then BreakAtTop else Continue),
       stuckCount + 1, v', acc')
    \<and> getScrollTop ops v' = getScrollTop ops v"
proof -
  define v1 where "v1 = sleep ops 50 (scrollBy ops (- scrollStep) v)"
  define w where "w = adaptiveWait ops pass ms cap 0 (getScrollHeight ops v1) v1
      (pass (queryDocument ops v1) acc)"
  have t1: "getScrollTop ops v1 = getScrollTop ops v"
    using top by (simp add: positionStuck_def v1_def)
  have "getScrollHeight ops (scrollBy ops (- scrollStep) v) \<le> getScrollHeight ops v"
    using hg by (simp add: heightNeverGrows_def)
  moreover have "getScrollHeight ops v1 \<le> getScrollHeight ops (scrollBy ops (- scrollStep) v)"
    using hg by (simp add: heightNeverGrows_def v1_def)
  ultimately have h1: "getScrollHeight ops v1 \<le> getScrollHeight ops v"
    by simp
  have "fst w \<le> getScrollHeight ops v1" and tw: "getScrollTop ops (fst (snd w)) = getScrollTop ops v1"
    using adaptiveWait_stuck [OF top hg refl, of pass ms cap 0 v1 "pass (queryDocument ops v1) acc"]
    by (simp_all add: w_def)
  with h1 have hw: "\<not> fst w > getScrollHeight ops v"
    by simp
  show ?thesis
    unfolding advance_def Let_def v1_def [symmetric] w_def [symmetric]
    using hw t1 tw by (auto simp: prod_eq_iff)
qed

lemma scrollLoop_stuck:
  assumes top: "positionStuck ops" and hg: "heightNeverGrows ops"
  shows "(getScrollTop ops v \<le> 10 \<longrightarrow>
      loopExit (scrollLoop ops pass ms cap scrollStep 0 0 0 v acc) = ReachedTop
      \<and> advances (scrollLoop ops pass ms cap scrollStep 0 0 0 v acc) = 1)
    \<and> (getScrollTop ops v > 10 \<longrightarrow>
      loopExit (scrollLoop ops pass ms cap scrollStep 0 0 0 v acc) = StuckDetected
      \<and> advances (scrollLoop ops pass ms cap scrollStep 0 0 0 v acc) = 3)"
proof -
  obtain va a1 where 1: "advance ops pass ms cap scrollStep 0 v acc =
      ((if getScrollTop ops v \<le> 10 then BreakAtTop else Continue), 1, va, a1)"
    and ta: "getScrollTop ops va = getScrollTop ops v"
    using advance_stuck [OF top hg, of pass ms cap scrollStep 0 v acc] by auto
  obtain vb a2 where 2: "advance ops pass ms cap scrollStep 1 va a1 =
      ((if getScrollTop ops va \<le> 10 then BreakAtTop else Continue), 2, vb, a2)"
    and tb: "getScrollTop ops vb = getScrollTop ops va"
    using advance_stuck [OF top hg, of pass ms cap scrollStep 1 va a1] by auto
  obtain vc a3 where 3: "advance ops pass ms cap scrollStep 2 vb a2 = (BreakStuck, 3, vc, a3)"
    using advance_stuck [OF top hg, of pass ms cap scrollStep 2 vb a2] by auto
  have c: "0 < maxScrolls" "Suc 0 < maxScrolls" "Suc (Suc 0) < maxScrolls"
    by (simp_all add: maxScrolls_def)
  show ?thesis
  proof (cases "getScrollTop ops v \<le> 10")
    case True
    then show ?thesis
      by (subst (1 2) scrollLoop_step [OF c(1) 1]) simp
  next
    case False
    with ta have f: "\<not> getScrollTop ops va \<le> 10"
      by simp
    have "scrollLoop ops pass ms cap scrollStep 0 0 0 v acc =
        scrollLoop ops pass ms cap scrollStep (Suc 0) 1 (Suc 0) va a1"
      using False by (subst scrollLoop_step [OF c(1) 1]) simp
    also have "\<dots> = scrollLoop ops pass ms cap scrollStep (Suc (Suc 0)) 2 (Suc (Suc 0)) vb a2"
      using f by (subst scrollLoop_step [OF c(2) 2]) simp
    also have "\<dots> = \<lparr>loopExit = StuckDetected, advances = 3, page = vc, collected = a3\<rparr>"
      by (subst scrollLoop_step [OF c(3) 3]) simp
    finally show ?thesis
      using False by simp
  qed
qed


lemma adaptiveWait_v1_stuck:
  assumes top: "positionStuck ops" and hg: "heightNeverGrows ops"
  shows "h = getScrollHeight ops v \<Longrightarrow>
    fst (fst (adaptiveWait_v1 ops k h v acc)) \<le> h
    \<and> getScrollTop ops (fst (snd (fst (adaptiveWait_v1 ops k h v acc)))) = getScrollTop ops v"
proof (induction "3 - k" arbitrary: k h v acc)
  case 0
  then show ?case
    by (simp add: adaptiveWait_v1_done)
next
  case (Suc n)
  from Suc.hyps(2) have n: "n = 3 - Suc k" and lt: "k < 3"
    by simp_all
  have t: "getScrollTop ops (sleep ops 50 v) = getScrollTop ops v"
    using top by (simp add: positionStuck_def)
  have g: "getScrollHeight ops (sleep ops 50 v) \<le> h"
    using hg Suc.prems by (simp add: heightNeverGrows_def)
  show ?case
    unfolding adaptiveWait_v1_step [OF lt]
    using Suc.hyps(1) [OF n refl, of "sleep ops 50 v"
        "fst (extractVisibleMessages_v1 (queryDocument ops (sleep ops 50 v)) acc)"] t g
    by (auto split: option.splits)
qed

lemma advance_v1_stuck:
  assumes top: "positionStuck ops" and hg: "heightNeverGrows ops"
  shows "(\<exists>e v' acc'. advance_v1 ops scrollStep stuckCount v acc = (Inl e, stuckCount, v', acc'))
    \<or> (\<exists>v' acc'.
        advance_v1 ops scrollStep stuckCount v acc =
          (Inr (if stuckCount + 1 \<ge> 3 then BreakStuck
                else if getScrollTop ops v \<le> 10 then BreakAtTop else Continue),
           stuckCount + 1, v', acc')
        \<and> getScrollTop ops v' = getScrollTop ops v)"
proof -
  define va where "va = sleep ops 50 (scrollBy ops (- scrollStep) v)"
  define r where "r = extractVisibleMessages_v1 (queryDocument ops va) acc"
  define w where "w = adaptiveWait_v1 ops 0 (getScrollHeight ops va) va (fst r)"
  have t1: "getScrollTop ops va = getScrollTop ops v"
    using top by (simp add: positionStuck_def va_def)
  have "getScrollHeight ops (scrollBy ops (- scrollStep) v) \<le> getScrollHeight ops v"
    using hg by (simp add: heightNeverGrows_def)
  moreover have "getScrollHeight ops va \<le> getScrollHeight ops (scrollBy ops (- scrollStep) v)"
    using hg by (simp add: heightNeverGrows_def va_def)
  ultimately have h1: "getScrollHeight ops va \<le> getScrollHeight ops v"
    by simp
  have "fst (fst w) \<le> getScrollHeight ops va"
    and tw: "getScrollTop ops (fst (snd (fst w))) = getScrollTop ops va"
    using adaptiveWait_v1_stuck [OF top hg refl, of 0 va "fst r"]
    by (simp_all add: w_def)
  with h1 have hw: "\<not> fst (fst w) > getScrollHeight ops v"
    by simp
  show ?thesis
  proof (cases "snd r")
    case (Some e)
    then have "advance_v1 ops scrollStep stuckCount v acc = (Inl e, stuckCount, va, fst r)"
      unfolding advance_v1_def Let_def va_def [symmetric] r_def [symmetric] by simp
    then show ?thesis
      by blast
  next
    case None
    note rn = this
    show ?thesis
    proof (cases "snd w")
      case (Some e)
      then have "advance_v1 ops scrollStep stuckCount v acc =
          (Inl e, stuckCount, fst (snd (fst w)), snd (snd (fst w)))"
        unfolding advance_v1_def Let_def va_def [symmetric] r_def [symmetric] w_def [symmetric]
        using rn by simp
      then show ?thesis
        by blast
    next
      case None
      then have "advance_v1 ops scrollStep stuckCount v acc =
          (Inr (if stuckCount + 1 \<ge> 3 then BreakStuck
                else if getScrollTop ops v \<le> 10 then BreakAtTop else Continue),
           stuckCount + 1, fst (snd (fst w)), snd (snd (fst w)))"
        unfolding advance_v1_def Let_def va_def [symmetric] r_def [symmetric] w_def [symmetric]
        using rn hw t1 by simp
      moreover have "getScrollTop ops (fst (snd (fst w))) = getScrollTop ops v"
        using tw t1 by simp
      ultimately show ?thesis
        by blast
    qed
  qed
qed

lemma scrollLoop_v1_throw:
  "scrollCount < maxScrolls \<Longrightarrow>
   advance_v1 ops scrollStep stuckCount v acc = (Inl e, stuckCount', v', acc') \<Longrightarrow>
   scrollLoop_v1 ops scrollStep scrollCount stuckCount made v acc =
     \<lparr>loopExit = Interrupted, advances = Suc made, page = v', collected = acc',
      thrown = Some e\<rparr>"
  by (simp add: scrollLoop_v1_step)

lemma scrollLoop_v1_stuck:
  assumes top: "positionStuck ops" and hg: "heightNeverGrows ops"
  shows "advances (scrollLoop_v1 ops scrollStep 0 0 0 v acc) \<le> 3
    \<and> (loopExit (scrollLoop_v1 ops scrollStep 0 0 0 v acc) = Interrupted
       \<or> (if getScrollTop ops v \<le> 10
          then loopExit (scrollLoop_v1 ops scrollStep 0 0 0 v acc) = ReachedTop
               \<and> advances (scrollLoop_v1 ops scrollStep 0 0 0 v acc) = 1
          else loopExit (scrollLoop_v1 ops scrollStep 0 0 0 v acc) = StuckDetected
               \<and> advances (scrollLoop_v1 ops scrollStep 0 0 0 v acc) = 3))"
proof -
  have c: "0 < maxScrolls" "Suc 0 < maxScrolls" "Suc (Suc 0) < maxScrolls"
    by (simp_all add: maxScrolls_def)
  from advance_v1_stuck [OF top hg, of scrollStep 0 v acc]
  consider (throw) e va a1 where "advance_v1 ops scrollStep 0 v acc = (Inl e, 0, va, a1)"
    | (ok) va a1 where "advance_v1 ops scrollStep 0 v acc =
        (Inr (if getScrollTop ops v \<le> 10 then BreakAtTop else Continue), 1, va, a1)"
      "getScrollTop ops va = getScrollTop ops v"
    by auto
  then show ?thesis
  proof cases
    case throw
    show ?thesis
      unfolding scrollLoop_v1_throw [OF c(1) throw] by simp
  next
    case ok
    note 1 = ok(1) and ta = ok(2)
    show ?thesis
    proof (cases "getScrollTop ops v \<le> 10")
      case True
      then have "scrollLoop_v1 ops scrollStep 0 0 0 v acc =
          \<lparr>loopExit = ReachedTop, advances = Suc 0, page = va, collected = a1, thrown = None\<rparr>"
        by (subst scrollLoop_v1_step [OF c(1) 1]) simp
      with True show ?thesis
        by simp
    next
      case False
      with ta have f: "\<not> getScrollTop ops va \<le> 10"
        by simp
      have l1: "scrollLoop_v1 ops scrollStep 0 0 0 v acc =
          scrollLoop_v1 ops scrollStep (Suc 0) 1 (Suc 0) va a1"
        using False by (subst scrollLoop_v1_step [OF c(1) 1]) simp
      from advance_v1_stuck [OF top hg, of scrollStep 1 va a1]
      consider (throw2) e vb a2 where "advance_v1 ops scrollStep 1 va a1 = (Inl e, 1, vb, a2)"
        | (ok2) vb a2 where "advance_v1 ops scrollStep 1 va a1 =
            (Inr (if getScrollTop ops va \<le> 10 then BreakAtTop else Continue), 2, vb, a2)"
          "getScrollTop ops vb = getScrollTop ops va"
        by auto
      then show ?thesis
      proof cases
        case throw2
        show ?thesis
          unfolding l1 scrollLoop_v1_throw [OF c(2) throw2] by simp
      next
        case ok2
        note 2 = ok2(1)
        have l2: "scrollLoop_v1 ops scrollStep (Suc 0) 1 (Suc 0) va a1 =
            scrollLoop_v1 ops scrollStep (Suc (Suc 0)) 2 (Suc (Suc 0)) vb a2"
          using f by (subst scrollLoop_v1_step [OF c(2) 2]) simp
        from advance_v1_stuck [OF top hg, of scrollStep 2 vb a2]
        consider (throw3) e vc a3 where "advance_v1 ops scrollStep 2 vb a2 = (Inl e, 2, vc, a3)"
          | (ok3) vc a3 where "advance_v1 ops scrollStep 2 vb a2 = (Inr BreakStuck, 3, vc, a3)"
          by auto
        then show ?thesis
        proof cases
          case throw3
          show ?thesis
            unfolding l1 l2 scrollLoop_v1_throw [OF c(3) throw3] by simp
        next
          case ok3
          have "scrollLoop_v1 ops scrollStep (Suc (Suc 0)) 2 (Suc (Suc 0)) vb a2 =
              \<lparr>loopExit = StuckDetected, advances = 3, page = vc, collected = a3, thrown = None\<rparr>"
            by (subst scrollLoop_v1_step [OF c(3) ok3]) simp
          with False show ?thesis
            unfolding l1 l2 by simp
        qed
      qed
    qed
  qed
qed

lemma autoScrollConversation_v1_stuck:
  assumes top: "positionStuck ops" and hg: "heightNeverGrows ops"
  shows "advances (autoScrollConversation_v1 ops v acc) \<le> 3
    \<and> (loopExit (autoScrollConversation_v1 ops v acc) = Interrupted
       \<or> (if getScrollTop ops v \<le> 10
          then loopExit (autoScrollConversation_v1 ops v acc) = ReachedTop
               \<and> advances (autoScrollConversation_v1 ops v acc) = 1
          else loopExit (autoScrollConversation_v1 ops v acc) = StuckDetected
               \<and> advances (autoScrollConversation_v1 ops v acc) = 3))"
proof (cases "snd (extractVisibleMessages_v1 (queryDocument ops v) acc)")
  case (Some e)
  then show ?thesis
    by (simp add: autoScrollConversation_v1_first_throw)
next
  case None
  show ?thesis
    using scrollLoop_v1_stuck [OF top hg,
        of "max 500 (floorOfProduct nineTenths (getClientHeight ops v))" v
        "fst (extractVisibleMessages_v1 (queryDocument ops v) acc)"]
    by (simp only: autoScrollConversation_v1_loop [OF None])
qed

lemma view_eval:
  "getScrollTop (frozenView pos doc) = (\<lambda>h. pos)"
  "getScrollHeight (frozenView pos doc) = (\<lambda>h. int h)"
  "scrollBy (frozenView pos doc) = (\<lambda>a h. h)"
  "setScrollTop (frozenView pos doc) = (\<lambda>y h. h)"
  "sleep (frozenView pos doc) = (\<lambda>n h. h)"
  "queryDocument (frozenView pos doc) = (\<lambda>h. doc)"
  "getScrollTop (growingView pos doc) = (\<lambda>h. pos)"
  "getScrollHeight (growingView pos doc) = (\<lambda>h. int h)"
  "scrollBy (growingView pos doc) = (\<lambda>a h. Suc h)"
  "setScrollTop (growingView pos doc) = (\<lambda>y h. h)"
  "sleep (growingView pos doc) = (\<lambda>n h. h)"
  "queryDocument (growingView pos doc) = (\<lambda>h. doc)"
  by (simp_all add: frozenView_def growingView_def)

lemma test_views_stuck:
  "positionStuck (frozenView pos doc)" "heightNeverGrows (frozenView pos doc)"
  "positionStuck (growingView pos doc)"
  by (simp_all add: positionStuck_def heightNeverGrows_def view_eval)

lemma advance_growing:
  assumes "pos > 10" "0 < cap" "pass doc acc = acc"
  shows "advance (growingView pos doc) pass ms cap scrollStep stuckCount h acc
    = (Continue, 1, Suc h, acc)"
  using assms
  by (simp add: advance_def Let_def view_eval adaptiveWait_step)

lemma scrollLoop_growing:
  assumes "pos > 10" "0 < cap" "pass doc acc = acc"
  shows "scrollLoop (growingView pos doc) pass ms cap scrollStep scrollCount stuckCount made h acc
    = \<lparr>loopExit = StepCap, advances = made + (maxScrolls - scrollCount),
       page = h + (maxScrolls - scrollCount), collected = acc\<rparr>"
proof (induction "maxScrolls - scrollCount" arbitrary: scrollCount stuckCount made h)
  case 0
  then show ?case
    by (simp add: scrollLoop_done)
next
  case (Suc n)
  from Suc.hyps(2) have n: "n = maxScrolls - Suc scrollCount" and lt: "scrollCount < maxScrolls"
    by simp_all
  have e: "Suc made + (maxScrolls - Suc scrollCount) = made + (maxScrolls - scrollCount)"
    "Suc h + (maxScrolls - Suc scrollCount) = h + (maxScrolls - scrollCount)"
    using lt by simp_all
  note a = advance_growing [where pass = pass and doc = doc and acc = acc, OF assms]
  show ?case
    by (subst scrollLoop_step [OF lt a])
      (simp add: Suc.hyps(1) [OF n] e del: add_Suc)
qed

lemma empty_pass_v2: "extractVisibleMessages_v2 b [] acc = acc"
  by (simp add: extractVisibleMessages_v2_def)

lemma empty_pass_v1: "extractVisibleMessages_v1 emptyDocument_v1 acc = (acc, None)"
  by (simp add: extractVisibleMessages_v1_def emptyDocument_v1_def)

lemma svg_pass_v1: "extractVisibleMessages_v1 svgDocument_v1 acc = (acc, Some TypeError)"
  by (simp add: extractVisibleMessages_v1_def svgDocument_v1_def processCandidate_def
      determineMessageRole_def)

lemma advance_v1_growing:
  assumes "pos > 10"
  shows "advance_v1 (growingView pos emptyDocument_v1) scrollStep stuckCount h acc
    = (Inr Continue, 1, Suc h, acc)"
  using assms
  by (simp add: advance_v1_def Let_def view_eval adaptiveWait_v1_step empty_pass_v1)

lemma scrollLoop_v1_growing:
  assumes "pos > 10"
  shows "scrollLoop_v1 (growingView pos emptyDocument_v1) scrollStep scrollCount stuckCount made h acc
    = \<lparr>loopExit = StepCap, advances = made + (maxScrolls - scrollCount),
       page = h + (maxScrolls - scrollCount), collected = acc, thrown = None\<rparr>"
proof (induction "maxScrolls - scrollCount" arbitrary: scrollCount stuckCount made h)
  case 0
  then show ?case
    by (simp add: scrollLoop_v1_done)
next
  case (Suc n)
  from Suc.hyps(2) have n: "n = maxScrolls - Suc scrollCount" and lt: "scrollCount < maxScrolls"
    by simp_all
  have e: "Suc made + (maxScrolls - Suc scrollCount) = made + (maxScrolls - scrollCount)"
    "Suc h + (maxScrolls - Suc scrollCount) = h + (maxScrolls - scrollCount)"
    using lt by simp_all
  note a = advance_v1_growing [where acc = acc, OF assms]
  show ?case
    by (subst scrollLoop_v1_step [OF lt a])
      (simp add: Suc.hyps(1) [OF n] e del: add_Suc)
qed

text \<open>
  Claim C5, as the code has it. For every view the scroll loop makes at most 500
  advances. If neither scrolling nor waiting changes the scroll position and neither lets
  the scroll height grow, the loop is left after at most 3 advances: by stuck detection
  after exactly 3 advances when the position is more than 10 pixels from the top, and by
  the at-top check after the first advance when it is within 10 pixels. (In variant 2
  the position is the one after the initial jump to the bottom.) In variant 1 an
  extraction pass can throw, on a candidate whose \<open>className\<close> is not a string; the
  traversal then ends at that pass, still within 3 advances under these hypotheses, and
  it ends in no other way before a \<open>break\<close> or the cap: when the \<open>className\<close> of every
  candidate is a string nothing is thrown and the loop is left as said.
\<close>

theorem scrollLoop_cap_and_stuck_exit:
  "advances (autoScrollConversation_v1 ops1 v1 acc1) \<le> 500
   \<and> advances (autoScrollConversation_v2 ops2 v2 acc2) \<le> 500
   \<and> (loopExit (autoScrollConversation_v1 ops1 v1 acc1) = Interrupted \<longrightarrow>
        thrown (autoScrollConversation_v1 ops1 v1 acc1) \<noteq> None)
   \<and> ((\<forall>v. stringClassNames (queryDocument ops1 v)) \<longrightarrow>
        thrown (autoScrollConversation_v1 ops1 v1 acc1) = None
        \<and> loopExit (autoScrollConversation_v1 ops1 v1 acc1) \<noteq> Interrupted)
   \<and> (positionStuck ops1 \<and> heightNeverGrows ops1 \<longrightarrow>
        advances (autoScrollConversation_v1 ops1 v1 acc1) \<le> 3
        \<and> (loopExit (autoScrollConversation_v1 ops1 v1 acc1) \<noteq> Interrupted \<longrightarrow>
            (if getScrollTop ops1 v1 \<le> 10
             then loopExit (autoScrollConversation_v1 ops1 v1 acc1) = ReachedTop
                  \<and> advances (autoScrollConversation_v1 ops1 v1 acc1) = 1
             else loopExit (autoScrollConversation_v1 ops1 v1 acc1) = StuckDetected
                  \<and> advances (autoScrollConversation_v1 ops1 v1 acc1) = 3)))
   \<and> (positionStuck ops1 \<and> heightNeverGrows ops1
        \<and> (\<forall>v. stringClassNames (queryDocument ops1 v)) \<longrightarrow>
        (if getScrollTop ops1 v1 \<le> 10
         then loopExit (autoScrollConversation_v1 ops1 v1 acc1) = ReachedTop
              \<and> advances (autoScrollConversation_v1 ops1 v1 acc1) = 1
         else loopExit (autoScrollConversation_v1 ops1 v1 acc1) = StuckDetected
              \<and> advances (autoScrollConversation_v1 ops1 v1 acc1) = 3))
   \<and> (positionStuck ops2 \<and> heightNeverGrows ops2 \<longrightarrow>
        (if getScrollTop ops2 (setScrollTop ops2 (getScrollHeight ops2 v2) v2) \<le> 10
         then loopExit (autoScrollConversation_v2 ops2 v2 acc2) = ReachedTop
              \<and> advances (autoScrollConversation_v2 ops2 v2 acc2) = 1
         else loopExit (autoScrollConversation_v2 ops2 v2 acc2) = StuckDetected
              \<and> advances (autoScrollConversation_v2 ops2 v2 acc2) = 3))"
proof -
  have cap1: "advances (autoScrollConversation_v1 ops1 v1 acc1) \<le> 500"
  proof (cases "snd (extractVisibleMessages_v1 (queryDocument ops1 v1) acc1)")
    case (Some e)
    then show ?thesis
      by (simp add: autoScrollConversation_v1_first_throw)
  next
    case None
    show ?thesis
      using scrollLoop_v1_advances_le [of ops1
          "max 500 (floorOfProduct nineTenths (getClientHeight ops1 v1))" 0 0 0 v1
          "fst (extractVisibleMessages_v1 (queryDocument ops1 v1) acc1)"]
      by (simp add: autoScrollConversation_v1_loop [OF None] maxScrolls_def)
  qed
  have cap2: "advances (autoScrollConversation_v2 ops2 v2 acc2) \<le> 500"
  proof -
    obtain scrollStep acc' where
      "advances (autoScrollConversation_v2 ops2 v2 acc2) =
         advances (scrollLoop ops2 (extractVisibleMessages_v2 True) 75 5 scrollStep 0 0 0
           (sleep ops2 100 (sleep ops2 200 (setScrollTop ops2 (getScrollHeight ops2 v2) v2))) acc')"
      using autoScrollConversation_v2_loop [of ops2 v2 acc2] by blast
    then show ?thesis
      using scrollLoop_advances_le [of ops2 "extractVisibleMessages_v2 True" 75 5 scrollStep 0 0 0
          "sleep ops2 100 (sleep ops2 200 (setScrollTop ops2 (getScrollHeight ops2 v2) v2))" acc']
      by (simp add: maxScrolls_def)
  qed
  have int1: "loopExit (autoScrollConversation_v1 ops1 v1 acc1) = Interrupted \<longrightarrow>
      thrown (autoScrollConversation_v1 ops1 v1 acc1) \<noteq> None"
    using autoScrollConversation_v1_interrupted [of ops1 v1 acc1] by blast
  have str1: "(\<forall>v. stringClassNames (queryDocument ops1 v)) \<longrightarrow>
      thrown (autoScrollConversation_v1 ops1 v1 acc1) = None
      \<and> loopExit (autoScrollConversation_v1 ops1 v1 acc1) \<noteq> Interrupted"
    using autoScrollConversation_v1_no_throw [of ops1 v1 acc1] int1 by blast
  have stuck1: "positionStuck ops1 \<and> heightNeverGrows ops1 \<longrightarrow>
      advances (autoScrollConversation_v1 ops1 v1 acc1) \<le> 3
      \<and> (loopExit (autoScrollConversation_v1 ops1 v1 acc1) \<noteq> Interrupted \<longrightarrow>
          (if getScrollTop ops1 v1 \<le> 10
           then loopExit (autoScrollConversation_v1 ops1 v1 acc1) = ReachedTop
                \<and> advances (autoScrollConversation_v1 ops1 v1 acc1) = 1
           else loopExit (autoScrollConversation_v1 ops1 v1 acc1) = StuckDetected
                \<and> advances (autoScrollConversation_v1 ops1 v1 acc1) = 3))"
    using autoScrollConversation_v1_stuck [of ops1 v1 acc1] by blast
  have stuck2: "positionStuck ops2 \<and> heightNeverGrows ops2 \<longrightarrow>
      (if getScrollTop ops2 (setScrollTop ops2 (getScrollHeight ops2 v2) v2) \<le> 10
       then loopExit (autoScrollConversation_v2 ops2 v2 acc2) = ReachedTop
            \<and> advances (autoScrollConversation_v2 ops2 v2 acc2) = 1
       else loopExit (autoScrollConversation_v2 ops2 v2 acc2) = StuckDetected
            \<and> advances (autoScrollConversation_v2 ops2 v2 acc2) = 3)"
  proof
    assume "positionStuck ops2 \<and> heightNeverGrows ops2"
    then have s: "positionStuck ops2" "heightNeverGrows ops2"
      by simp_all
    define vb where "vb = sleep ops2 100 (sleep ops2 200 (setScrollTop ops2 (getScrollHeight ops2 v2) v2))"
    have t: "getScrollTop ops2 vb = getScrollTop ops2 (setScrollTop ops2 (getScrollHeight ops2 v2) v2)"
      using s(1) by (simp add: positionStuck_def vb_def)
    obtain scrollStep acc' where l:
      "loopExit (autoScrollConversation_v2 ops2 v2 acc2) =
         loopExit (scrollLoop ops2 (extractVisibleMessages_v2 True) 75 5 scrollStep 0 0 0 vb acc')"
      "advances (autoScrollConversation_v2 ops2 v2 acc2) =
         advances (scrollLoop ops2 (extractVisibleMessages_v2 True) 75 5 scrollStep 0 0 0 vb acc')"
      using autoScrollConversation_v2_loop [of ops2 v2 acc2] unfolding vb_def by blast
    show "if getScrollTop ops2 (setScrollTop ops2 (getScrollHeight ops2 v2) v2) \<le> 10
           then loopExit (autoScrollConversation_v2 ops2 v2 acc2) = ReachedTop
                \<and> advances (autoScrollConversation_v2 ops2 v2 acc2) = 1
           else loopExit (autoScrollConversation_v2 ops2 v2 acc2) = StuckDetected
                \<and> advances (autoScrollConversation_v2 ops2 v2 acc2) = 3"
      using scrollLoop_stuck [OF s, of vb "extractVisibleMessages_v2 True" 75 5 scrollStep acc']
      by (simp add: l t)
  qed
  from str1 stuck1
  have both1: "positionStuck ops1 \<and> heightNeverGrows ops1
      \<and> (\<forall>v. stringClassNames (queryDocument ops1 v)) \<longrightarrow>
      (if getScrollTop ops1 v1 \<le> 10
       then loopExit (autoScrollConversation_v1 ops1 v1 acc1) = ReachedTop
            \<and> advances (autoScrollConversation_v1 ops1 v1 acc1) = 1
       else loopExit (autoScrollConversation_v1 ops1 v1 acc1) = StuckDetected
            \<and> advances (autoScrollConversation_v1 ops1 v1 acc1) = 3)"
    by blast
  from cap1 cap2 int1 str1 stuck1 both1 stuck2 show ?thesis
    by (intro conjI)
qed

text \<open>
  Without the condition on the scroll height the stuck detection can fail to fire: the
  source resets \<open>stuckCount\<close> whenever the scroll height has grown during an advance. On
  a view whose position is stuck at 1000 while every scroll step makes the page higher,
  the loop of either variant runs all 500 advances and is left by the step cap.
\<close>

theorem scrollLoop_stuck_counterexample:
  "positionStuck (growingView 1000 ([] :: element list))
   \<and> loopExit (autoScrollConversation_v2 (growingView 1000 []) 2000 emptyAccumulator) = StepCap
   \<and> advances (autoScrollConversation_v2 (growingView 1000 []) 2000 emptyAccumulator) = 500
   \<and> positionStuck (growingView 1000 emptyDocument_v1)
   \<and> loopExit (autoScrollConversation_v1 (growingView 1000 emptyDocument_v1) 2000 emptyAccumulator)
       = StepCap
   \<and> advances (autoScrollConversation_v1 (growingView 1000 emptyDocument_v1) 2000 emptyAccumulator)
       = 500"
  by (simp add: test_views_stuck autoScrollConversation_v1_def autoScrollConversation_v2_def
      Let_def view_eval empty_pass_v1 empty_pass_v2 scrollLoop_growing scrollLoop_v1_growing
      maxScrolls_def)

theorem scrollLoop_cap_and_stuck_exit_witness:
  "positionStuck (frozenView 1000 emptyDocument_v1) \<and> heightNeverGrows (frozenView 1000 emptyDocument_v1)
   \<and> stringClassNames emptyDocument_v1
   \<and> thrown (autoScrollConversation_v1 (frozenView 1000 emptyDocument_v1) 2000 emptyAccumulator)
       = None
   \<and> loopExit (autoScrollConversation_v1 (frozenView 1000 emptyDocument_v1) 2000 emptyAccumulator)
       = StuckDetected
   \<and> advances (autoScrollConversation_v1 (frozenView 1000 emptyDocument_v1) 2000 emptyAccumulator) = 3
   \<and> positionStuck (frozenView 0 ([] :: element list)) \<and> heightNeverGrows (frozenView 0 ([] :: element list))
   \<and> loopExit (autoScrollConversation_v2 (frozenView 0 []) 2000 emptyAccumulator) = ReachedTop
   \<and> advances (autoScrollConversation_v2 (frozenView 0 []) 2000 emptyAccumulator) = 1
   \<and> positionStuck (frozenView 1000 svgDocument_v1) \<and> heightNeverGrows (frozenView 1000 svgDocument_v1)
   \<and> loopExit (autoScrollConversation_v1 (frozenView 1000 svgDocument_v1) 2000 emptyAccumulator)
       = Interrupted
   \<and> thrown (autoScrollConversation_v1 (frozenView 1000 svgDocument_v1) 2000 emptyAccumulator)
       \<noteq> None
   \<and> advances (autoScrollConversation_v1 (frozenView 1000 svgDocument_v1) 2000 emptyAccumulator)
       \<le> 3"
proof -
  note t1 = scrollLoop_cap_and_stuck_exit
    [of "frozenView 1000 emptyDocument_v1" 2000 emptyAccumulator
        "frozenView 0 ([] :: element list)" 2000 emptyAccumulator]
  note t2 = scrollLoop_cap_and_stuck_exit
    [of "frozenView 1000 svgDocument_v1" 2000 emptyAccumulator
        "frozenView 0 ([] :: element list)" 2000 emptyAccumulator]
  have s: "stringClassNames emptyDocument_v1"
    by (simp add: stringClassNames_def emptyDocument_v1_def)
  have i: "loopExit (autoScrollConversation_v1 (frozenView 1000 svgDocument_v1) 2000 emptyAccumulator)
      = Interrupted"
    by (simp add: autoScrollConversation_v1_def Let_def view_eval svg_pass_v1)
  from t1 s
  have r1: "thrown (autoScrollConversation_v1 (frozenView 1000 emptyDocument_v1) 2000 emptyAccumulator)
         = None
     \<and> loopExit (autoScrollConversation_v1 (frozenView 1000 emptyDocument_v1) 2000 emptyAccumulator)
         = StuckDetected
     \<and> advances (autoScrollConversation_v1 (frozenView 1000 emptyDocument_v1) 2000 emptyAccumulator) = 3
     \<and> loopExit (autoScrollConversation_v2 (frozenView 0 []) 2000 emptyAccumulator) = ReachedTop
     \<and> advances (autoScrollConversation_v2 (frozenView 0 []) 2000 emptyAccumulator) = 1"
    by (simp add: test_views_stuck view_eval)
  from t2 i
  have r2: "thrown (autoScrollConversation_v1 (frozenView 1000 svgDocument_v1) 2000 emptyAccumulator)
         \<noteq> None
     \<and> advances (autoScrollConversation_v1 (frozenView 1000 svgDocument_v1) 2000 emptyAccumulator)
         \<le> 3"
    by (simp add: test_views_stuck view_eval)
  from s i r1 r2 show ?thesis
    by (simp add: test_views_stuck)
qed


section \<open>The request handler: proofs\<close>

lemma visitElement_no_timestamp:
  "\<forall>m \<in> set (fst st). timestamp m = None \<Longrightarrow>
   \<forall>m \<in> set (fst (visitElement el st)). timestamp m = None"
  by (auto simp: visitElement_def Let_def)

lemma extractVisibleMessages_v2_no_timestamp:
  assumes "\<forall>m \<in> set (messages acc). timestamp m = None"
  shows "\<forall>m \<in> set (messages (extractVisibleMessages_v2 b els acc)). timestamp m = None"
proof -
  have "\<forall>m \<in> set (fst (foldl (\<lambda>st el. visitElement el st) ([], seenContent acc) els)).
      timestamp m = None"
    by (rule foldl_inv) (simp_all add: visitElement_no_timestamp)
  with assms show ?thesis
    by (auto simp: extractVisibleMessages_v2_def Let_def)
qed

lemma variant2_has_no_timestamps:
  "\<forall>m \<in> set (messages (collected (autoScrollConversation_v2 ops v emptyAccumulator))).
     timestamp m = None"
  by (rule autoScrollConversation_v2_inv)
    (simp_all add: emptyAccumulator_def extractVisibleMessages_v2_no_timestamp)

lemma dedupe_Nil_iff: "deduplicateMessages msgs = [] \<longleftrightarrow> msgs = []"
  by (cases msgs) (simp_all add: deduplicateMessages_def dedupe_loop_Cons)

lemma respond_v1_cases:
  "respond_v1 (Inl e) title date timezone = Failure (ascii ''Failed to extract chat: '' @ e)"
  "deduplicateMessages msgs = [] \<Longrightarrow> respond_v1 (Inr msgs) title date timezone = Failure noMessagesError"
  "deduplicateMessages msgs \<noteq> [] \<Longrightarrow> respond_v1 (Inr msgs) title date timezone =
     Success (formatAsMarkdown_v1 date timezone (rev (deduplicateMessages msgs)) title) title
       (length (deduplicateMessages msgs))"
  by (simp_all add: respond_v1_def Let_def)

lemma respond_v2_cases:
  "respond_v2 (Inl e) title date timezone = Failure (ascii ''Failed to extract chat: '' @ e)"
  "deduplicateMessages msgs = [] \<Longrightarrow> respond_v2 (Inr msgs) title date timezone = Failure noMessagesError"
  "deduplicateMessages msgs \<noteq> [] \<Longrightarrow> respond_v2 (Inr msgs) title date timezone =
     Success (formatAsMarkdown_v2 date timezone (deduplicateMessages msgs) title) title
       (length (deduplicateMessages msgs))"
  by (simp_all add: respond_v2_def Let_def)

lemma respond_never_empty:
  "respond_v1 traversed title date timezone \<noteq> Success md t 0"
  "respond_v2 traversed title date timezone \<noteq> Success md t 0"
  by (auto simp: respond_v1_def respond_v2_def Let_def split: sum.splits)

lemma nothing_found_v1:
  assumes "\<forall>v. extractVisibleMessages_v1 (queryDocument ops v) emptyAccumulator
      = (emptyAccumulator, None)"
  shows "collected (autoScrollConversation_v1 ops v emptyAccumulator) = emptyAccumulator
    \<and> thrown (autoScrollConversation_v1 ops v emptyAccumulator) = None"
  using autoScrollConversation_v1_inv
    [of "\<lambda>a. a = emptyAccumulator" emptyAccumulator "\<lambda>x. x = None" ops v]
  by (simp add: assms)

lemma nothing_found_v2:
  assumes "\<forall>v b. extractVisibleMessages_v2 b (queryDocument ops v) emptyAccumulator = emptyAccumulator"
  shows "collected (autoScrollConversation_v2 ops v emptyAccumulator) = emptyAccumulator"
  by (rule autoScrollConversation_v2_inv [where P = "\<lambda>a. a = emptyAccumulator"])
    (simp_all add: assms)

text \<open>
  Claim C1. For every extraction request the handler never returns a success with zero
  messages, whatever the traversal did. If the deduplicated message sequence is empty
  after the traversal, the response is the failure carrying the (non-empty) no-content
  message; otherwise it is a success whose \<open>messageCount\<close> is the length of the
  deduplicated sequence, which is positive. In particular, on a view where no pass
  locates a message (and, in variant 1, none throws), the whole request ends in the
  no-content failure; and a traversal of variant 1 that threw ends in the failure that
  carries the message of the error.
\<close>

theorem extractChat_never_empty_success:
  "respond_v1 traversed title date timezone \<noteq> Success md t 0
   \<and> respond_v2 traversed title date timezone \<noteq> Success md t 0
   \<and> extractChat_v1 errorMessage ops1 v1 title date timezone \<noteq> Success md t 0
   \<and> extractChat_v2 ops2 v2 title date timezone \<noteq> Success md t 0
   \<and> (deduplicateMessages msgs = [] \<longrightarrow>
        respond_v1 (Inr msgs) title date timezone = Failure noMessagesError
        \<and> respond_v2 (Inr msgs) title date timezone = Failure noMessagesError)
   \<and> (deduplicateMessages msgs \<noteq> [] \<longrightarrow>
        respond_v1 (Inr msgs) title date timezone =
          Success (formatAsMarkdown_v1 date timezone (rev (deduplicateMessages msgs)) title) title
            (length (deduplicateMessages msgs))
        \<and> respond_v2 (Inr msgs) title date timezone =
          Success (formatAsMarkdown_v2 date timezone (deduplicateMessages msgs) title) title
            (length (deduplicateMessages msgs))
        \<and> 0 < length (deduplicateMessages msgs))
   \<and> ((\<forall>v. extractVisibleMessages_v1 (queryDocument ops1 v) emptyAccumulator
             = (emptyAccumulator, None))
        \<longrightarrow> extractChat_v1 errorMessage ops1 v1 title date timezone = Failure noMessagesError)
   \<and> (thrown (autoScrollConversation_v1 ops1 v1 emptyAccumulator) = Some e
        \<longrightarrow> extractChat_v1 errorMessage ops1 v1 title date timezone
              = Failure (ascii ''Failed to extract chat: '' @ errorMessage e))
   \<and> ((\<forall>v b. extractVisibleMessages_v2 b (queryDocument ops2 v) emptyAccumulator = emptyAccumulator)
        \<longrightarrow> extractChat_v2 ops2 v2 title date timezone = Failure noMessagesError)
   \<and> noMessagesError \<noteq> []"
proof (intro conjI impI)
  show "extractChat_v1 errorMessage ops1 v1 title date timezone \<noteq> Success md t 0"
    unfolding extractChat_v1_def Let_def by (rule respond_never_empty)
  show "extractChat_v2 ops2 v2 title date timezone \<noteq> Success md t 0"
    unfolding extractChat_v2_def by (rule respond_never_empty)
  show "noMessagesError \<noteq> []"
    by (simp add: noMessagesError_def ascii_def)
next
  assume "\<forall>v. extractVisibleMessages_v1 (queryDocument ops1 v) emptyAccumulator
      = (emptyAccumulator, None)"
  then have c: "collected (autoScrollConversation_v1 ops1 v1 emptyAccumulator) = emptyAccumulator"
    and n: "thrown (autoScrollConversation_v1 ops1 v1 emptyAccumulator) = None"
    using nothing_found_v1 [of ops1 v1] by simp_all
  show "extractChat_v1 errorMessage ops1 v1 title date timezone = Failure noMessagesError"
    unfolding extractChat_v1_def Let_def c n
    by (simp add: emptyAccumulator_def respond_v1_cases(2) dedupe_Nil_iff)
next
  assume "thrown (autoScrollConversation_v1 ops1 v1 emptyAccumulator) = Some e"
  then show "extractChat_v1 errorMessage ops1 v1 title date timezone
      = Failure (ascii ''Failed to extract chat: '' @ errorMessage e)"
    unfolding extractChat_v1_def Let_def by (simp add: respond_v1_cases(1))
next
  assume "\<forall>v b. extractVisibleMessages_v2 b (queryDocument ops2 v) emptyAccumulator = emptyAccumulator"
  then have c: "collected (autoScrollConversation_v2 ops2 v2 emptyAccumulator) = emptyAccumulator"
    by (rule nothing_found_v2)
  show "extractChat_v2 ops2 v2 title date timezone = Failure noMessagesError"
    unfolding extractChat_v2_def c
    by (simp add: emptyAccumulator_def respond_v2_cases(2) dedupe_Nil_iff)
qed (simp_all add: respond_never_empty respond_v1_cases respond_v2_cases)

theorem extractChat_never_empty_success_witness:
  "deduplicateMessages [] = []
   \<and> respond_v1 (Inr []) (ascii ''Chat'') (ascii ''January 5, 2025'') (ascii ''UTC'')
       = Failure noMessagesError
   \<and> deduplicateMessages [\<lparr>role = User, content = ascii ''Hi'', timestamp = None\<rparr>] \<noteq> []
   \<and> messageCount (respond_v2 (Inr [\<lparr>role = User, content = ascii ''Hi'', timestamp = None\<rparr>])
        (ascii ''Chat'') (ascii ''January 5, 2025'') (ascii ''UTC'')) = 1
   \<and> extractChat_v2 (frozenView 1000 []) 2000 (ascii ''Chat'') (ascii ''January 5, 2025'') (ascii ''UTC'')
       = Failure noMessagesError
   \<and> extractChat_v1 (\<lambda>e. ascii ''not a function'') (frozenView 1000 emptyDocument_v1) 2000
        (ascii ''Chat'') (ascii ''January 5, 2025'') (ascii ''UTC'')
       = Failure noMessagesError
   \<and> thrown (autoScrollConversation_v1 (frozenView 1000 svgDocument_v1) 2000 emptyAccumulator)
       = Some TypeError
   \<and> extractChat_v1 (\<lambda>e. ascii ''not a function'') (frozenView 1000 svgDocument_v1) 2000
        (ascii ''Chat'') (ascii ''January 5, 2025'') (ascii ''UTC'')
       = Failure (ascii ''Failed to extract chat: not a function'')"
proof -
  note t1 = extractChat_never_empty_success
    [where traversed = "Inr []" and md = "[]" and t = "[]"
      and errorMessage = "\<lambda>e. ascii ''not a function''" and e = TypeError
      and ?ops1.0 = "frozenView 1000 emptyDocument_v1" and ?v1.0 = 2000
      and ?ops2.0 = "frozenView 1000 ([] :: element list)" and ?v2.0 = 2000
      and msgs = "[]" and title = "ascii ''Chat''" and date = "ascii ''January 5, 2025''"
      and timezone = "ascii ''UTC''"]
  note t2 = extractChat_never_empty_success
    [where traversed = "Inr []" and md = "[]" and t = "[]"
      and errorMessage = "\<lambda>e. ascii ''not a function''" and e = TypeError
      and ?ops1.0 = "frozenView 1000 emptyDocument_v1" and ?v1.0 = 2000
      and ?ops2.0 = "frozenView 1000 ([] :: element list)" and ?v2.0 = 2000
      and msgs = "[\<lparr>role = User, content = ascii ''Hi'', timestamp = None\<rparr>]"
      and title = "ascii ''Chat''" and date = "ascii ''January 5, 2025''"
      and timezone = "ascii ''UTC''"]
  note t3 = extractChat_never_empty_success
    [where traversed = "Inr []" and md = "[]" and t = "[]"
      and errorMessage = "\<lambda>e. ascii ''not a function''" and e = TypeError
      and ?ops1.0 = "frozenView 1000 svgDocument_v1" and ?v1.0 = 2000
      and ?ops2.0 = "frozenView 1000 ([] :: element list)" and ?v2.0 = 2000
      and msgs = "[]" and title = "ascii ''Chat''" and date = "ascii ''January 5, 2025''"
      and timezone = "ascii ''UTC''"]
  have d: "deduplicateMessages [\<lparr>role = User, content = ascii ''Hi'', timestamp = None\<rparr>]
      = [\<lparr>role = User, content = ascii ''Hi'', timestamp = None\<rparr>]"
    by (simp add: dedupe_eval)
  have a: "deduplicateMessages [] = []"
    by (simp add: deduplicateMessages_def)
  have x: "thrown (autoScrollConversation_v1 (frozenView 1000 svgDocument_v1) 2000 emptyAccumulator)
      = Some TypeError"
    by (simp add: autoScrollConversation_v1_def Let_def view_eval svg_pass_v1)
  from t1 a
  have r1: "respond_v1 (Inr []) (ascii ''Chat'') (ascii ''January 5, 2025'') (ascii ''UTC'')
       = Failure noMessagesError"
    by simp
  from t2 d
  have r2: "messageCount (respond_v2 (Inr [\<lparr>role = User, content = ascii ''Hi'', timestamp = None\<rparr>])
        (ascii ''Chat'') (ascii ''January 5, 2025'') (ascii ''UTC'')) = 1"
    by simp
  from t1
  have r3: "extractChat_v2 (frozenView 1000 []) 2000 (ascii ''Chat'') (ascii ''January 5, 2025'')
      (ascii ''UTC'') = Failure noMessagesError"
    by (simp add: view_eval empty_pass_v2)
  from t1
  have r4: "extractChat_v1 (\<lambda>e. ascii ''not a function'') (frozenView 1000 emptyDocument_v1) 2000
        (ascii ''Chat'') (ascii ''January 5, 2025'') (ascii ''UTC'') = Failure noMessagesError"
    by (simp add: view_eval empty_pass_v1)
  from t3 x
  have "extractChat_v1 (\<lambda>e. ascii ''not a function'') (frozenView 1000 svgDocument_v1) 2000
        (ascii ''Chat'') (ascii ''January 5, 2025'') (ascii ''UTC'')
      = Failure (ascii ''Failed to extract chat: '' @ ascii ''not a function'')"
    by simp
  then have r5: "extractChat_v1 (\<lambda>e. ascii ''not a function'') (frozenView 1000 svgDocument_v1) 2000
        (ascii ''Chat'') (ascii ''January 5, 2025'') (ascii ''UTC'')
      = Failure (ascii ''Failed to extract chat: not a function'')"
    by (simp add: ascii_def)
  from a d r1 r2 r3 r4 x r5 show ?thesis
    by simp
qed

end
